theory Spec2Isabelle
  imports Main "HOL-Library.Word" "HOL-Library.Sublist" "HOL-Library.AList"
    "HOL-Library.Char_ord" "HOL-Library.List_Lexorder"
begin

unbundle bit_operations_syntax

section \<open>Bytes, errors and the io interfaces\<close>

type_synonym byte = "8 word"
type_synonym bytes = "byte list"
type_synonym uint64 = "64 word"

text \<open>Go's conversion \<^verbatim>\<open>[]byte(s)\<close> of a string.\<close>

definition bytes_of_string :: "string \<Rightarrow> bytes" where
  "bytes_of_string s = map (\<lambda>c. of_nat (of_char c)) s"

text \<open>
  Go errors as values. \<open>Wrapped msg e\<close> is \<^verbatim>\<open>fmt.Errorf("msg: %w", e)\<close>,
  \<open>Errorf msg\<close> an error made from a message alone. \<open>ErrOpen\<close> is the error of
  \<^verbatim>\<open>cipher.AEAD.Open\<close> ("cipher: message authentication failed"), \<open>KeySizeError\<close>
  the one of \<^verbatim>\<open>aes.NewCipher\<close>, \<open>ErrNotExist\<close> the error of a file operation on a
  missing file (the errors \<^verbatim>\<open>os.IsNotExist\<close> recognises), \<open>IOFailure\<close> any other failure
  of a reader, a writer or a file operation. \<open>Panic msg\<close> stands for a panic raised by
  library code: it ends the operation like an error that no caller handles. Messages are
  kept without the quotes that \<^verbatim>\<open>fmt.Errorf\<close> puts around their arguments.
\<close>

datatype error =
    EOF
  | ErrUnexpectedEOF
  | IOFailure
  | ErrNotExist
  | ErrOpen
  | KeySizeError nat
  | Errorf string
  | Wrapped string error
  | Panic string

text \<open>
  An \<^verbatim>\<open>io.Reader\<close> is modelled by what its future \<^verbatim>\<open>Read\<close> calls deliver: a list
  of deliveries. A call \<^verbatim>\<open>Read(p)\<close> with \<open>len(p) = n\<close> takes at most \<open>n\<close> bytes of the
  first delivery and leaves the rest of it for the next call; a \<open>Fault\<close> is a call that
  returns an error other than \<^verbatim>\<open>io.EOF\<close>; after the last delivery every call returns
  \<^verbatim>\<open>(0, io.EOF)\<close>. A \<^verbatim>\<open>bytes.Reader\<close> or a file holds all its bytes in one delivery, a
  network body may deliver them in pieces, an \<^verbatim>\<open>io.MultiReader\<close> delivers the pieces of
  its parts in sequence.
\<close>

datatype delivery = Data bytes | Fault

type_synonym reader = "delivery list"

fun reader_Read :: "reader \<Rightarrow> nat \<Rightarrow> (bytes \<times> error option) \<times> reader" where
  "reader_Read [] n = (([], Some EOF), [])"
| "reader_Read (Fault # r) n = (([], Some IOFailure), r)"
| "reader_Read (Data s # r) n =
     ((take n s, None), (if length s \<le> n then r else Data (drop n s) # r))"

definition bytes_NewReader :: "bytes \<Rightarrow> reader" where
  "bytes_NewReader b = (if b = [] then [] else [Data b])"

definition io_MultiReader :: "reader list \<Rightarrow> reader" where
  "io_MultiReader rs = concat rs"

fun delivery_size :: "delivery \<Rightarrow> nat" where
  "delivery_size (Data s) = Suc (length s)"
| "delivery_size Fault = 1"

definition reader_size :: "reader \<Rightarrow> nat" where
  "reader_size r = sum_list (map delivery_size r)"

lemma reader_Read_size:
  "0 < n \<Longrightarrow> reader_Read r n = ((bs, None), r') \<Longrightarrow> reader_size r' < reader_size r"
  by (cases "(r, n)" rule: reader_Read.cases) (auto simp: reader_size_def split: if_splits)

text \<open>
  \<^verbatim>\<open>io.ReadFull(r, buf)\<close> is \<^verbatim>\<open>io.ReadAtLeast(r, buf, len(buf))\<close>: it calls \<^verbatim>\<open>Read\<close> on
  the unfilled rest of the buffer until the buffer is full or a call returns an error.
\<close>

function io_ReadAtLeast_loop :: "reader \<Rightarrow> nat \<Rightarrow> bytes \<Rightarrow> (bytes \<times> error option) \<times> reader" where
  "io_ReadAtLeast_loop r want got =
     (if length got < want then
        (case reader_Read r (want - length got) of
           ((bs, None), r') \<Rightarrow> io_ReadAtLeast_loop r' want (got @ bs)
         | ((bs, Some e), r') \<Rightarrow> ((got @ bs, Some e), r'))
      else ((got, None), r))"
  by pat_completeness auto
termination
  by (relation "measure (\<lambda>(r, want, got). reader_size r)")
     (auto intro: reader_Read_size[OF _ sym, rotated])

declare io_ReadAtLeast_loop.simps [simp del]

definition io_ReadFull :: "reader \<Rightarrow> nat \<Rightarrow> (bytes \<times> error option) \<times> reader" where
  "io_ReadFull r n =
     (case io_ReadAtLeast_loop r n [] of
        ((got, err), r') \<Rightarrow>
          if n \<le> length got then ((got, None), r')
          else if got \<noteq> [] \<and> err = Some EOF then ((got, Some ErrUnexpectedEOF), r')
          else ((got, err), r'))"

text \<open>
  An \<^verbatim>\<open>io.Writer\<close>: the bytes written so far and the room left (\<open>None\<close> for a
  \<^verbatim>\<open>bytes.Buffer\<close>, which never fails). A write that does not fit writes what fits and
  returns an error.
\<close>

record writer =
  w_data :: bytes
  w_room :: "nat option"

definition writer_Write :: "writer \<Rightarrow> bytes \<Rightarrow> error option \<times> writer" where
  "writer_Write w b =
     (case w_room w of
        None \<Rightarrow> (None, w\<lparr>w_data := w_data w @ b\<rparr>)
      | Some k \<Rightarrow>
          if length b \<le> k then (None, w\<lparr>w_data := w_data w @ b, w_room := Some (k - length b)\<rparr>)
          else (Some IOFailure, w\<lparr>w_data := w_data w @ take k b, w_room := Some 0\<rparr>))"

definition bytes_Buffer :: writer where
  "bytes_Buffer = \<lparr>w_data = [], w_room = None\<rparr>"

text \<open>
  \<^verbatim>\<open>io.Copy\<close> from a source with a \<^verbatim>\<open>Read\<close> method \<open>rd\<close> and state \<open>src\<close>, with a copy
  buffer of \<open>n\<close> bytes: the loop reads, appends what was read to the destination \<open>dst\<close>, and
  stops at the first error, which it returns unless it is \<^verbatim>\<open>io.EOF\<close>. A source that
  keeps returning \<^verbatim>\<open>(0, nil)\<close> keeps the loop running: the result \<open>None\<close>.
\<close>

partial_function (option) io_Copy ::
  "('s \<Rightarrow> nat \<Rightarrow> (bytes \<times> error option) \<times> 's) \<Rightarrow> nat \<Rightarrow> bytes \<Rightarrow> 's \<Rightarrow> (bytes \<times> error option) option" where
  "io_Copy rd n dst src =
     (case rd src n of
        ((buf, Some e), src') \<Rightarrow> Some (dst @ buf, if e = EOF then None else Some e)
      | ((buf, None), src') \<Rightarrow> io_Copy rd n (dst @ buf) src')"

declare io_Copy.simps [code]

section \<open>The encryption codec\<close>

definition SaltSize :: nat where "SaltSize = 32"
definition KeySize :: nat where "KeySize = 32"
definition NonceSize :: nat where "NonceSize = 12"
definition Iterations :: nat where "Iterations = 100000"

text \<open>
  The cryptographic primitives are library code (\<^verbatim>\<open>golang.org/x/crypto/pbkdf2\<close>,
  \<^verbatim>\<open>crypto/aes\<close>, \<^verbatim>\<open>crypto/cipher\<close>): the codec takes them as a parameter.
  \<open>pbkdf2_Key password salt iter keyLen\<close> is \<^verbatim>\<open>pbkdf2.Key\<close> with SHA-256;
  \<open>gcm_Seal key nonce plaintext\<close> and \<open>gcm_Open key nonce ciphertext\<close> are \<^verbatim>\<open>Seal\<close> and
  \<^verbatim>\<open>Open\<close> of the AES-GCM instance made from \<open>key\<close>, with no additional data;
  \<open>gcm_Overhead\<close> is its \<^verbatim>\<open>Overhead()\<close>, the tag size.
\<close>

record crypto =
  pbkdf2_Key :: "bytes \<Rightarrow> bytes \<Rightarrow> nat \<Rightarrow> nat \<Rightarrow> bytes"
  gcm_Seal :: "bytes \<Rightarrow> bytes \<Rightarrow> bytes \<Rightarrow> bytes"
  gcm_Open :: "bytes \<Rightarrow> bytes \<Rightarrow> bytes \<Rightarrow> bytes option"
  gcm_Overhead :: nat

text \<open>
  What the proofs use of the library: the derived key has the requested length; and, for
  a 32-byte key and a 12-byte nonce, a sealed message is its plaintext's length plus the
  overhead of 16 bytes, \<^verbatim>\<open>Open\<close> returns the plaintext of what \<^verbatim>\<open>Seal\<close> produced under
  the same key and nonce, and \<^verbatim>\<open>Open\<close> rejects an input shorter than the tag (the first
  check of \<^verbatim>\<open>Open\<close> in \<^verbatim>\<open>crypto/cipher\<close>). With a nonce of another length \<^verbatim>\<open>Seal\<close>
  and \<^verbatim>\<open>Open\<close> panic: the readers below have that branch.
\<close>

definition gcm_contract :: "crypto \<Rightarrow> bool" where
  "gcm_contract C \<longleftrightarrow>
     (\<forall>pw salt iter keyLen. length (pbkdf2_Key C pw salt iter keyLen) = keyLen) \<and>
     (\<forall>key nonce p. length key = KeySize \<and> length nonce = NonceSize \<longrightarrow>
        length (gcm_Seal C key nonce p) = length p + gcm_Overhead C \<and>
        gcm_Open C key nonce (gcm_Seal C key nonce p) = Some p) \<and>
     (\<forall>key nonce c. length key = KeySize \<and> length nonce = NonceSize \<and>
        length c < gcm_Overhead C \<longrightarrow> gcm_Open C key nonce c = None) \<and>
     gcm_Overhead C = 16"

record EncryptionHeader =
  Salt :: bytes
  Nonce :: bytes

definition DeriveKey :: "crypto \<Rightarrow> string \<Rightarrow> bytes \<Rightarrow> bytes" where
  "DeriveKey C password salt = pbkdf2_Key C (bytes_of_string password) salt Iterations KeySize"

text \<open>\<^verbatim>\<open>rand.Reader\<close> is a reader like any other; reading from it can fail.\<close>

definition GenerateSalt :: "reader \<Rightarrow> (error + bytes) \<times> reader" where
  "GenerateSalt rnd =
     (case io_ReadFull rnd SaltSize of
        ((salt, Some e), rnd') \<Rightarrow> (Inl (Wrapped ''failed to generate salt'' e), rnd')
      | ((salt, None), rnd') \<Rightarrow> (Inr salt, rnd'))"

definition GenerateNonce :: "reader \<Rightarrow> (error + bytes) \<times> reader" where
  "GenerateNonce rnd =
     (case io_ReadFull rnd NonceSize of
        ((nonce, Some e), rnd') \<Rightarrow> (Inl (Wrapped ''failed to generate nonce'' e), rnd')
      | ((nonce, None), rnd') \<Rightarrow> (Inr nonce, rnd'))"

text \<open>\<^verbatim>\<open>aes.NewCipher\<close> accepts keys of 16, 24 or 32 bytes. The block cipher and the GCM
  instance made from it are determined by the key, which stands for them.\<close>

definition aes_NewCipher :: "bytes \<Rightarrow> error + bytes" where
  "aes_NewCipher key =
     (if length key = 16 \<or> length key = 24 \<or> length key = 32 then Inr key
      else Inl (KeySizeError (length key)))"

text \<open>The struct's \<open>buffer\<close> is scratch space: only its length matters.\<close>

record EncryptReader =
  er_reader :: reader
  er_cipher :: bytes
  er_baseNonce :: bytes
  er_counter :: uint64
  er_buffer :: nat
  er_encrypted :: bytes
  er_eof :: bool

definition NewEncryptReader ::
  "crypto \<Rightarrow> reader \<Rightarrow> reader \<Rightarrow> string \<Rightarrow> (error + EncryptReader \<times> EncryptionHeader) \<times> reader" where
  "NewEncryptReader C rnd r password =
     (case GenerateSalt rnd of
        (Inl e, rnd1) \<Rightarrow> (Inl e, rnd1)
      | (Inr salt, rnd1) \<Rightarrow>
          (case aes_NewCipher (DeriveKey C password salt) of
             Inl e \<Rightarrow> (Inl (Wrapped ''failed to create cipher'' e), rnd1)
           | Inr gcm \<Rightarrow>
               (case GenerateNonce rnd1 of
                  (Inl e, rnd2) \<Rightarrow> (Inl e, rnd2)
                | (Inr nonce, rnd2) \<Rightarrow>
                    (Inr (\<lparr>er_reader = r, er_cipher = gcm, er_baseNonce = nonce, er_counter = 0,
                           er_buffer = 64 * 1024, er_encrypted = [], er_eof = False\<rparr>,
                          \<lparr>Salt = salt, Nonce = nonce\<rparr>), rnd2))))"

text \<open>The loop that combines the base nonce with the counter, in \<^verbatim>\<open>EncryptReader.Read\<close>.\<close>

function er_nonce_loop :: "nat \<Rightarrow> uint64 \<Rightarrow> bytes \<Rightarrow> bytes" where
  "er_nonce_loop i counter chunkNonce =
     (if i < 8 \<and> i < length chunkNonce
      then er_nonce_loop (Suc i) counter
             (chunkNonce[length chunkNonce - 1 - i :=
                (chunkNonce ! (length chunkNonce - 1 - i)) XOR ucast (drop_bit (8 * i) counter)])
      else chunkNonce)"
  by pat_completeness auto
termination
  by (relation "measure (\<lambda>(i, counter, chunkNonce). 8 - i)") auto

declare er_nonce_loop.simps [simp del]

definition er_chunkNonce :: "bytes \<Rightarrow> uint64 \<Rightarrow> bytes" where
  "er_chunkNonce baseNonce counter = er_nonce_loop 0 counter baseNonce"

definition EncryptReader_Read ::
  "crypto \<Rightarrow> EncryptReader \<Rightarrow> nat \<Rightarrow> (bytes \<times> error option) \<times> EncryptReader" where
  "EncryptReader_Read C er p =
     (if er_eof er \<and> er_encrypted er = [] then (([], Some EOF), er)
      else if er_encrypted er \<noteq> [] then
        ((take p (er_encrypted er), None), er\<lparr>er_encrypted := drop p (er_encrypted er)\<rparr>)
      else
        (case reader_Read (er_reader er) (er_buffer er) of
           ((buf, err), r') \<Rightarrow>
             if err \<noteq> None \<and> err \<noteq> Some EOF then (([], err), er\<lparr>er_reader := r'\<rparr>)
             else if buf \<noteq> [] then
               (let chunkNonce = er_chunkNonce (er_baseNonce er) (er_counter er) in
                if length chunkNonce \<noteq> NonceSize
                then (([], Some (Panic ''crypto/cipher: incorrect nonce length given to GCM'')),
                      er\<lparr>er_reader := r'\<rparr>)
                else
                  (let encrypted = gcm_Seal C (er_cipher er) chunkNonce buf
                   in ((take p encrypted, None),
                       er\<lparr>er_reader := r', er_encrypted := drop p encrypted,
                          er_counter := er_counter er + 1\<rparr>)))
             else if err = Some EOF then
               (if er_encrypted er \<noteq> [] then
                  ((take p (er_encrypted er), None),
                   er\<lparr>er_reader := r', er_eof := True, er_encrypted := drop p (er_encrypted er)\<rparr>)
                else (([], Some EOF), er\<lparr>er_reader := r', er_eof := True\<rparr>))
             else (([], None), er\<lparr>er_reader := r'\<rparr>)))"

record DecryptReader =
  dr_reader :: reader
  dr_cipher :: bytes
  dr_baseNonce :: bytes
  dr_counter :: uint64
  dr_buffer :: nat
  dr_decrypted :: bytes
  dr_eof :: bool

definition NewDecryptReader ::
  "crypto \<Rightarrow> reader \<Rightarrow> string \<Rightarrow> EncryptionHeader \<Rightarrow> error + DecryptReader" where
  "NewDecryptReader C r password header =
     (case aes_NewCipher (DeriveKey C password (Salt header)) of
        Inl e \<Rightarrow> Inl (Wrapped ''failed to create cipher'' e)
      | Inr gcm \<Rightarrow>
          Inr \<lparr>dr_reader = r, dr_cipher = gcm, dr_baseNonce = Nonce header, dr_counter = 0,
               dr_buffer = 64 * 1024 + gcm_Overhead C, dr_decrypted = [], dr_eof = False\<rparr>)"

text \<open>The same loop, as \<^verbatim>\<open>DecryptReader.Read\<close> writes it.\<close>

function dr_nonce_loop :: "nat \<Rightarrow> uint64 \<Rightarrow> bytes \<Rightarrow> bytes" where
  "dr_nonce_loop i counter chunkNonce =
     (if i < 8 \<and> i < length chunkNonce
      then dr_nonce_loop (Suc i) counter
             (chunkNonce[length chunkNonce - 1 - i :=
                (chunkNonce ! (length chunkNonce - 1 - i)) XOR ucast (drop_bit (8 * i) counter)])
      else chunkNonce)"
  by pat_completeness auto
termination
  by (relation "measure (\<lambda>(i, counter, chunkNonce). 8 - i)") auto

declare dr_nonce_loop.simps [simp del]

definition dr_chunkNonce :: "bytes \<Rightarrow> uint64 \<Rightarrow> bytes" where
  "dr_chunkNonce baseNonce counter = dr_nonce_loop 0 counter baseNonce"

definition DecryptReader_Read ::
  "crypto \<Rightarrow> DecryptReader \<Rightarrow> nat \<Rightarrow> (bytes \<times> error option) \<times> DecryptReader" where
  "DecryptReader_Read C dr p =
     (if dr_eof dr \<and> dr_decrypted dr = [] then (([], Some EOF), dr)
      else if dr_decrypted dr \<noteq> [] then
        ((take p (dr_decrypted dr), None), dr\<lparr>dr_decrypted := drop p (dr_decrypted dr)\<rparr>)
      else
        (case reader_Read (dr_reader dr) (dr_buffer dr) of
           ((buf, err), r') \<Rightarrow>
             if err \<noteq> None \<and> err \<noteq> Some EOF then (([], err), dr\<lparr>dr_reader := r'\<rparr>)
             else if buf \<noteq> [] then
               (let chunkNonce = dr_chunkNonce (dr_baseNonce dr) (dr_counter dr) in
                if length chunkNonce \<noteq> NonceSize
                then (([], Some (Panic ''crypto/cipher: incorrect nonce length given to GCM'')),
                      dr\<lparr>dr_reader := r'\<rparr>)
                else
                  (case gcm_Open C (dr_cipher dr) chunkNonce buf of
                     None \<Rightarrow> (([], Some (Wrapped ''decryption failed'' ErrOpen)), dr\<lparr>dr_reader := r'\<rparr>)
                   | Some decrypted \<Rightarrow>
                       ((take p decrypted, None),
                        dr\<lparr>dr_reader := r', dr_decrypted := drop p decrypted,
                           dr_counter := dr_counter dr + 1\<rparr>)))
             else if err = Some EOF then
               (if dr_decrypted dr \<noteq> [] then
                  ((take p (dr_decrypted dr), None),
                   dr\<lparr>dr_reader := r', dr_eof := True, dr_decrypted := drop p (dr_decrypted dr)\<rparr>)
                else (([], Some EOF), dr\<lparr>dr_reader := r', dr_eof := True\<rparr>))
             else (([], None), dr\<lparr>dr_reader := r'\<rparr>)))"

definition magic :: bytes where
  "magic = bytes_of_string ''DVOM-ENC''"

definition WriteEncryptionHeader :: "writer \<Rightarrow> EncryptionHeader \<Rightarrow> error option \<times> writer" where
  "WriteEncryptionHeader w header =
     (case writer_Write w magic of
        (Some e, w1) \<Rightarrow> (Some (Wrapped ''failed to write magic bytes'' e), w1)
      | (None, w1) \<Rightarrow>
     (case writer_Write w1 [1] of
        (Some e, w2) \<Rightarrow> (Some (Wrapped ''failed to write version'' e), w2)
      | (None, w2) \<Rightarrow>
     (case writer_Write w2 (Salt header) of
        (Some e, w3) \<Rightarrow> (Some (Wrapped ''failed to write salt'' e), w3)
      | (None, w3) \<Rightarrow>
     (case writer_Write w3 (Nonce header) of
        (Some e, w4) \<Rightarrow> (Some (Wrapped ''failed to write nonce'' e), w4)
      | (None, w4) \<Rightarrow> (None, w4)))))"

text \<open>The verb \<^verbatim>\<open>%d\<close> of \<^verbatim>\<open>fmt\<close> on a number that is not negative: its decimal digits.\<close>

function fmt_d :: "nat \<Rightarrow> string" where
  "fmt_d n =
     (if n < 10 then [''0123456789'' ! n] else fmt_d (n div 10) @ [''0123456789'' ! (n mod 10)])"
  by pat_completeness auto
termination
  by (relation "measure (\<lambda>n. n)") auto

declare fmt_d.simps [simp del]

definition ReadEncryptionHeader :: "reader \<Rightarrow> (error + EncryptionHeader) \<times> reader" where
  "ReadEncryptionHeader r =
     (case io_ReadFull r 8 of
        ((mg, Some e), r1) \<Rightarrow> (Inl (Wrapped ''failed to read magic bytes'' e), r1)
      | ((mg, None), r1) \<Rightarrow>
          if mg \<noteq> magic then (Inl (Errorf ''not an encrypted DVOM backup''), r1)
          else
     (case io_ReadFull r1 1 of
        ((version, Some e), r2) \<Rightarrow> (Inl (Wrapped ''failed to read version'' e), r2)
      | ((version, None), r2) \<Rightarrow>
          if version \<noteq> [1]
          then (Inl (Errorf (''unsupported encryption version: '' @ fmt_d (unat (version ! 0)))), r2)
          else
     (case io_ReadFull r2 SaltSize of
        ((salt, Some e), r3) \<Rightarrow> (Inl (Wrapped ''failed to read salt'' e), r3)
      | ((salt, None), r3) \<Rightarrow>
     (case io_ReadFull r3 NonceSize of
        ((nonce, Some e), r4) \<Rightarrow> (Inl (Wrapped ''failed to read nonce'' e), r4)
      | ((nonce, None), r4) \<Rightarrow> (Inr \<lparr>Salt = salt, Nonce = nonce\<rparr>, r4)))))"

definition IsEncrypted :: "bytes \<Rightarrow> bool" where
  "IsEncrypted data \<longleftrightarrow> 8 \<le> length data \<and> take 8 data = magic"

text \<open>
  The backup side (\<^verbatim>\<open>BackupDirectVolume\<close>) stores \<^verbatim>\<open>io.MultiReader(&headerBuf, encryptReader)\<close>:
  its \<^verbatim>\<open>Read\<close> serves the header buffer while it has bytes and the encrypting reader
  after that.
\<close>

definition header_MultiReader_Read ::
  "crypto \<Rightarrow> bytes \<times> EncryptReader \<Rightarrow> nat \<Rightarrow> (bytes \<times> error option) \<times> (bytes \<times> EncryptReader)" where
  "header_MultiReader_Read C mr p =
     (case mr of (headerBuf, er) \<Rightarrow>
        if headerBuf \<noteq> [] then ((take p headerBuf, None), (drop p headerBuf, er))
        else (case EncryptReader_Read C er p of (res, er') \<Rightarrow> (res, ([], er'))))"

text \<open>
  Encrypting a stream as the backup does: a new encrypting reader over the plaintext
  source, its header written to a buffer, and the two copied to the store with a copy
  buffer of \<open>n\<close> bytes.
\<close>

definition encrypt_stream ::
  "crypto \<Rightarrow> reader \<Rightarrow> string \<Rightarrow> reader \<Rightarrow> nat \<Rightarrow> (error + bytes) option" where
  "encrypt_stream C rnd password src n =
     (case NewEncryptReader C rnd src password of
        (Inl e, rnd') \<Rightarrow> Some (Inl (Wrapped ''failed to create encryption'' e))
      | (Inr (er, header), rnd') \<Rightarrow>
          (case WriteEncryptionHeader bytes_Buffer header of
             (Some e, headerBuf) \<Rightarrow> Some (Inl (Wrapped ''failed to write encryption header'' e))
           | (None, headerBuf) \<Rightarrow>
               (case io_Copy (header_MultiReader_Read C) n [] (w_data headerBuf, er) of
                  None \<Rightarrow> None
                | Some (out, Some e) \<Rightarrow> Some (Inl (Wrapped ''failed to write backup data'' e))
                | Some (out, None) \<Rightarrow> Some (Inr out))))"

text \<open>
  Decrypting a stream: the header parsed from the source, a decrypting reader over the
  rest of the source, copied out with a copy buffer of \<open>n\<close> bytes.
\<close>

definition decrypt_stream ::
  "crypto \<Rightarrow> string \<Rightarrow> reader \<Rightarrow> nat \<Rightarrow> (error + bytes) option" where
  "decrypt_stream C password src n =
     (case ReadEncryptionHeader src of
        (Inl e, rest) \<Rightarrow> Some (Inl (Wrapped ''failed to read encryption header'' e))
      | (Inr header, rest) \<Rightarrow>
          (case NewDecryptReader C rest password header of
             Inl e \<Rightarrow> Some (Inl (Wrapped ''failed to create decryption'' e))
           | Inr dr \<Rightarrow>
               (case io_Copy (DecryptReader_Read C) n [] dr of
                  None \<Rightarrow> None
                | Some (out, Some e) \<Rightarrow> Some (Inl (Wrapped ''failed to write backup data'' e))
                | Some (out, None) \<Rightarrow> Some (Inr out))))"

text \<open>
  A stand-in for the library, to run the codec on concrete inputs: the key is the
  password and salt cut to the key length, a sealed message is the plaintext followed by
  a 16-byte tag made of the plaintext's length and byte sum, the key's byte sum, the
  nonce and the start of the key, and \<open>Open\<close> recomputes the tag and compares. It has the properties of
  \<open>gcm_contract\<close> and no cryptographic strength.
\<close>

definition ref_tag :: "bytes \<Rightarrow> bytes \<Rightarrow> bytes \<Rightarrow> bytes" where
  "ref_tag key nonce p =
     take 16 ([of_nat (length p), sum_list p, sum_list key] @ nonce @ key @ replicate 16 0)"

definition ref_crypto :: crypto where
  "ref_crypto =
     \<lparr>pbkdf2_Key = (\<lambda>pw salt iter keyLen. take keyLen (pw @ salt @ replicate keyLen 0)),
      gcm_Seal = (\<lambda>key nonce p. p @ ref_tag key nonce p),
      gcm_Open = (\<lambda>key nonce c.
         if length c < 16 then None
         else if drop (length c - 16) c = ref_tag key nonce (take (length c - 16) c)
         then Some (take (length c - 16) c)
         else None),
      gcm_Overhead = 16\<rparr>"

text \<open>
  Two views of a reader, used to state what the code reads: the bytes it delivers before
  its first fault, and the reader that is left once \<open>n\<close> of them have been read in full.
\<close>

fun reader_data :: "reader \<Rightarrow> bytes" where
  "reader_data [] = []"
| "reader_data (Fault # r) = []"
| "reader_data (Data s # r) = s @ reader_data r"

fun reader_skip :: "nat \<Rightarrow> reader \<Rightarrow> reader" where
  "reader_skip n [] = []"
| "reader_skip n (Fault # r) = (if n = 0 then Fault # r else r)"
| "reader_skip n (Data s # r) =
     (if n = 0 then Data s # r
      else if length s < n then reader_skip (n - length s) r
      else if length s = n then r
      else Data (drop n s) # r)"

text \<open>
  What an encrypting reader with key \<open>key\<close>, base nonce \<open>base\<close>, buffer length \<open>B\<close> and
  counter \<open>ctr\<close> is expected to produce from a source that fills its buffer: the source's
  bytes cut into pieces of \<open>B\<close> bytes, each sealed under the nonce of its counter.
\<close>

function sealed_chunks :: "crypto \<Rightarrow> bytes \<Rightarrow> bytes \<Rightarrow> nat \<Rightarrow> uint64 \<Rightarrow> bytes \<Rightarrow> bytes" where
  "sealed_chunks C key base B ctr d =
     (if B = 0 \<or> d = [] then []
      else gcm_Seal C key (er_chunkNonce base ctr) (take B d) @
           sealed_chunks C key base B (ctr + 1) (drop B d))"
  by pat_completeness auto
termination
  by (relation "measure (\<lambda>(C, key, base, B, ctr, d). length d)") auto

declare sealed_chunks.simps [simp del]

text \<open>
  Concrete inputs for running the codec: 44 bytes for the random source, and the stream
  the backup side makes from them for the password "pw" and the plaintext 1, 2, 3 under
  the stand-in library.
\<close>

definition demo_rand :: bytes where
  "demo_rand =
     [11, 48, 85, 122, 159, 196, 233, 19, 56, 93, 130, 167, 204, 241, 27, 64, 101, 138,
     175, 212, 249, 35, 72, 109, 146, 183, 220, 6, 43, 80, 117, 154, 191, 228, 14, 51,
     88, 125, 162, 199, 236, 22, 59, 96]"

definition demo_stream :: bytes where
  "demo_stream =
     [68, 86, 79, 77, 45, 69, 78, 67, 1, 11, 48, 85, 122, 159, 196, 233, 19, 56, 93, 130,
     167, 204, 241, 27, 64, 101, 138, 175, 212, 249, 35, 72, 109, 146, 183, 220, 6, 43,
     80, 117, 154, 191, 228, 14, 51, 88, 125, 162, 199, 236, 22, 59, 96, 1, 2, 3, 3, 6,
     15, 191, 228, 14, 51, 88, 125, 162, 199, 236, 22, 59, 96, 112]"

section \<open>The object store contract and the filesystem backend\<close>

text \<open>\<open>md_CreatedAt\<close> is the instant of a \<^verbatim>\<open>time.Time\<close>; \<^verbatim>\<open>After\<close> compares instants.\<close>

record BackupMetadata =
  md_ID :: string
  md_Name :: string
  md_Type :: string
  md_Size :: int
  md_CreatedAt :: int
  md_ContainerID :: string
  md_VolumeName :: string
  md_ImageName :: string
  md_ImageTag :: string
  md_Description :: string
  md_Version :: string
  md_Encrypted :: bool

record Backup =
  bk_ID :: string
  bk_Metadata :: BackupMetadata
  bk_DataReader :: reader

text \<open>The \<^verbatim>\<open>Backend\<close> interface: the methods of a backend over its state \<open>'st\<close>.\<close>

record 'st Backend =
  be_Store :: "'st \<Rightarrow> Backup \<Rightarrow> error option \<times> 'st"
  be_Retrieve :: "'st \<Rightarrow> string \<Rightarrow> error + Backup"
  be_List :: "'st \<Rightarrow> error + BackupMetadata list"
  be_Delete :: "'st \<Rightarrow> string \<Rightarrow> error option \<times> 'st"
  be_Exists :: "'st \<Rightarrow> string \<Rightarrow> error + bool"

text \<open>
  The base directory of the filesystem backend: its files by name. A file holds raw bytes
  or the JSON text of a metadata record; decoding raw bytes as metadata fails. The ids the
  backend is given are file names (the snapshot layer replaces path separators), so the
  path \<^verbatim>\<open>filepath.Join(basePath, id) + ext\<close> is the file \<open>ident @ ext\<close> of the directory
  (\<open>ident\<close> stands for the source's \<^verbatim>\<open>id\<close>).
\<close>

datatype os_file = Bytes bytes | Json BackupMetadata

type_synonym dir = "(string \<times> os_file) list"

text \<open>
  What the operating system can do to the backend: the file operations that fail, by file
  name, and the text \<^verbatim>\<open>encoding/json\<close> writes for a metadata record.
\<close>

record os_env =
  create_fails :: "string \<Rightarrow> bool"
  write_fails :: "string \<Rightarrow> bool"
  remove_fails :: "string \<Rightarrow> bool"
  open_fails :: "string \<Rightarrow> bool"
  readdir_fails :: bool
  json_text :: "BackupMetadata \<Rightarrow> bytes"

definition os_Create :: "os_env \<Rightarrow> dir \<Rightarrow> string \<Rightarrow> error + dir" where
  "os_Create F d name =
     (if create_fails F name then Inl IOFailure else Inr (AList.update name (Bytes []) d))"

definition os_Remove :: "os_env \<Rightarrow> dir \<Rightarrow> string \<Rightarrow> error option \<times> dir" where
  "os_Remove F d name =
     (case map_of d name of
        None \<Rightarrow> (Some ErrNotExist, d)
      | Some f \<Rightarrow> if remove_fails F name then (Some IOFailure, d) else (None, AList.delete name d))"

definition os_Open :: "os_env \<Rightarrow> dir \<Rightarrow> string \<Rightarrow> error + os_file" where
  "os_Open F d name =
     (case map_of d name of
        None \<Rightarrow> Inl ErrNotExist
      | Some f \<Rightarrow> if open_fails F name then Inl IOFailure else Inr f)"

text \<open>\<^verbatim>\<open>os.ReadDir\<close> returns the entries sorted by file name.\<close>

definition os_ReadDir :: "os_env \<Rightarrow> dir \<Rightarrow> error + (string \<times> os_file) list" where
  "os_ReadDir F d = (if readdir_fails F then Inl IOFailure else Inr (sort_key fst d))"

definition json_Decode :: "os_file \<Rightarrow> BackupMetadata option" where
  "json_Decode f = (case f of Json m \<Rightarrow> Some m | Bytes b \<Rightarrow> None)"

definition file_reader :: "os_env \<Rightarrow> os_file \<Rightarrow> reader" where
  "file_reader F f = (case f of Bytes b \<Rightarrow> bytes_NewReader b | Json m \<Rightarrow> bytes_NewReader (json_text F m))"

text \<open>
  \<^verbatim>\<open>io.Copy\<close> from a plain reader, as a total function: the bytes delivered before the
  first fault, and the fault if there is one.
\<close>

fun reader_copy :: "reader \<Rightarrow> bytes \<times> error option" where
  "reader_copy [] = ([], None)"
| "reader_copy (Fault # r) = ([], Some IOFailure)"
| "reader_copy (Data s # r) = (case reader_copy r of (bs, err) \<Rightarrow> (s @ bs, err))"

text \<open>\<^verbatim>\<open>io.Copy(dataFile, backup.DataReader)\<close>: what was copied before an error stays in the file.\<close>

definition file_Copy :: "os_env \<Rightarrow> dir \<Rightarrow> string \<Rightarrow> reader \<Rightarrow> error option \<times> dir" where
  "file_Copy F d name r =
     (if write_fails F name then (Some IOFailure, d)
      else case reader_copy r of (bs, err) \<Rightarrow> (err, AList.update name (Bytes bs) d))"

text \<open>\<^verbatim>\<open>json.NewEncoder(metadataFile).Encode(backup.Metadata)\<close>.\<close>

definition json_Encode :: "os_env \<Rightarrow> dir \<Rightarrow> string \<Rightarrow> BackupMetadata \<Rightarrow> error option \<times> dir" where
  "json_Encode F d name m =
     (if write_fails F name then (Some IOFailure, d) else (None, AList.update name (Json m) d))"

text \<open>A failed \<^verbatim>\<open>os.Remove\<close> of the rollback is printed as a warning and otherwise ignored.\<close>

definition LocalStorage_Store :: "os_env \<Rightarrow> dir \<Rightarrow> Backup \<Rightarrow> error option \<times> dir" where
  "LocalStorage_Store F d backup =
     (let backupPath = bk_ID backup in
      case os_Create F d (backupPath @ ''.tar.gz'') of
        Inl e \<Rightarrow> (Some (Wrapped ''failed to create backup file'' e), d)
      | Inr d1 \<Rightarrow>
     (case file_Copy F d1 (backupPath @ ''.tar.gz'') (bk_DataReader backup) of
        (Some e, d2) \<Rightarrow>
          (Some (Wrapped ''failed to write backup data'' e),
           snd (os_Remove F d2 (backupPath @ ''.tar.gz'')))
      | (None, d2) \<Rightarrow>
     (case os_Create F d2 (backupPath @ ''.json'') of
        Inl e \<Rightarrow>
          (Some (Wrapped ''failed to create metadata file'' e),
           snd (os_Remove F d2 (backupPath @ ''.tar.gz'')))
      | Inr d3 \<Rightarrow>
     (case json_Encode F d3 (backupPath @ ''.json'') (bk_Metadata backup) of
        (Some e, d4) \<Rightarrow>
          (Some (Wrapped ''failed to write metadata'' e),
           snd (os_Remove F (snd (os_Remove F d4 (backupPath @ ''.tar.gz''))) (backupPath @ ''.json'')))
      | (None, d4) \<Rightarrow> (None, d4)))))"

definition LocalStorage_Retrieve :: "os_env \<Rightarrow> dir \<Rightarrow> string \<Rightarrow> error + Backup" where
  "LocalStorage_Retrieve F d ident =
     (case os_Open F d (ident @ ''.json'') of
        Inl e \<Rightarrow>
          if e = ErrNotExist then Inl (Errorf (''backup not found: '' @ ident))
          else Inl (Wrapped ''failed to open metadata file'' e)
      | Inr metadataFile \<Rightarrow>
     (case json_Decode metadataFile of
        None \<Rightarrow> Inl (Errorf ''failed to decode metadata'')
      | Some metadata \<Rightarrow>
     (case os_Open F d (ident @ ''.tar.gz'') of
        Inl e \<Rightarrow> Inl (Wrapped ''failed to open backup file'' e)
      | Inr dataFile \<Rightarrow>
          Inr \<lparr>bk_ID = ident, bk_Metadata = metadata, bk_DataReader = file_reader F dataFile\<rparr>)))"

fun LocalStorage_List_loop ::
  "os_env \<Rightarrow> dir \<Rightarrow> (string \<times> os_file) list \<Rightarrow> BackupMetadata list \<Rightarrow> BackupMetadata list" where
  "LocalStorage_List_loop F d [] backups = backups"
| "LocalStorage_List_loop F d (entry # entries) backups =
     (if suffix ''.json'' (fst entry) then
        (case os_Open F d (fst entry) of
           Inl e \<Rightarrow> LocalStorage_List_loop F d entries backups
         | Inr metadataFile \<Rightarrow>
             (case json_Decode metadataFile of
                None \<Rightarrow> LocalStorage_List_loop F d entries backups
              | Some metadata \<Rightarrow> LocalStorage_List_loop F d entries (backups @ [metadata])))
      else LocalStorage_List_loop F d entries backups)"

definition LocalStorage_List :: "os_env \<Rightarrow> dir \<Rightarrow> error + BackupMetadata list" where
  "LocalStorage_List F d =
     (case os_ReadDir F d of
        Inl e \<Rightarrow> Inl (Wrapped ''failed to read backup directory'' e)
      | Inr entries \<Rightarrow> Inr (LocalStorage_List_loop F d entries []))"

definition LocalStorage_Delete :: "os_env \<Rightarrow> dir \<Rightarrow> string \<Rightarrow> error option \<times> dir" where
  "LocalStorage_Delete F d ident =
     (case os_Remove F d (ident @ ''.tar.gz'') of
        (err1, d1) \<Rightarrow>
          if err1 \<noteq> None \<and> err1 \<noteq> Some ErrNotExist
          then (Some (Wrapped ''failed to remove backup file'' (the err1)), d1)
          else
     (case os_Remove F d1 (ident @ ''.json'') of
        (err2, d2) \<Rightarrow>
          if err2 \<noteq> None \<and> err2 \<noteq> Some ErrNotExist
          then (Some (Wrapped ''failed to remove metadata file'' (the err2)), d2)
          else (None, d2)))"

definition LocalStorage_Exists :: "os_env \<Rightarrow> dir \<Rightarrow> string \<Rightarrow> error + bool" where
  "LocalStorage_Exists F d ident =
     (case os_Open F d (ident @ ''.json'') of
        Inl e \<Rightarrow>
          if e = ErrNotExist then Inr False
          else Inl (Wrapped ''failed to check backup existence'' e)
      | Inr f \<Rightarrow> Inr True)"

definition LocalStorage :: "os_env \<Rightarrow> dir Backend" where
  "LocalStorage F =
     \<lparr>be_Store = LocalStorage_Store F, be_Retrieve = LocalStorage_Retrieve F,
      be_List = LocalStorage_List F, be_Delete = LocalStorage_Delete F,
      be_Exists = LocalStorage_Exists F\<rparr>"

section \<open>The snapshot versioning layer\<close>

definition strings_TrimSuffix :: "string \<Rightarrow> string \<Rightarrow> string" where
  "strings_TrimSuffix s suf = (if suffix suf s then take (length s - length suf) s else s)"

text \<open>\<^verbatim>\<open>strings.ReplaceAll\<close> for a one-character pattern and replacement.\<close>

definition strings_ReplaceAll :: "string \<Rightarrow> char \<Rightarrow> char \<Rightarrow> string" where
  "strings_ReplaceAll s old new = map (\<lambda>c. if c = old then new else c) s"

text \<open>\<^verbatim>\<open>strings.SplitN(s, sep, 2)\<close> for a one-character separator.\<close>

definition strings_SplitN2 :: "string \<Rightarrow> char \<Rightarrow> string list" where
  "strings_SplitN2 s sep =
     (if sep \<in> set s
      then [takeWhile (\<lambda>c. c \<noteq> sep) s, tl (dropWhile (\<lambda>c. c \<noteq> sep) s)]
      else [s])"

definition cleanSnapshotName :: "string \<Rightarrow> string" where
  "cleanSnapshotName name =
     strings_ReplaceAll
       (strings_ReplaceAll
          (strings_TrimSuffix (strings_TrimSuffix name ''.tar.gz'') ''.zip'')
          CHR ''/'' CHR ''-'')
       CHR 0x5C CHR ''-''"

text \<open>
  \<^verbatim>\<open>StoreSnapshot\<close> reads the clock twice: \<open>timestamp\<close> is the first reading formatted as a
  version token, \<open>now\<close> the second.
\<close>

definition StoreSnapshot ::
  "'st Backend \<Rightarrow> string \<Rightarrow> int \<Rightarrow> 'st \<Rightarrow> string \<Rightarrow> Backup \<Rightarrow> error option \<times> 'st" where
  "StoreSnapshot B timestamp now st name backup =
     (if name = [] then (Some (Errorf ''snapshot name is required''), st)
      else
        (let name = cleanSnapshotName name;
             versionedID = name @ ''@'' @ timestamp;
             metadata = (bk_Metadata backup)
               \<lparr>md_Name := name, md_Type := ''volume-snapshot'', md_CreatedAt := now,
                md_Version := timestamp\<rparr>;
             snapshotBackup =
               \<lparr>bk_ID = versionedID, bk_Metadata = metadata\<lparr>md_ID := versionedID\<rparr>,
                bk_DataReader = bk_DataReader backup\<rparr>
         in be_Store B st snapshotBackup))"

record VersionInfo =
  vi_Version :: string
  vi_Size :: int
  vi_CreatedAt :: int
  vi_Description :: string

fun ListVersions_loop :: "string \<Rightarrow> BackupMetadata list \<Rightarrow> VersionInfo list \<Rightarrow> VersionInfo list" where
  "ListVersions_loop name [] versions = versions"
| "ListVersions_loop name (backup # backups) versions =
     (if prefix (name @ ''@'') (md_ID backup) then
        (let parts = strings_SplitN2 (md_ID backup) CHR ''@'' in
         if length parts = 2 then
           ListVersions_loop name backups
             (versions @
              [\<lparr>vi_Version = parts ! 1, vi_Size = md_Size backup,
                vi_CreatedAt = md_CreatedAt backup, vi_Description = md_Description backup\<rparr>])
         else ListVersions_loop name backups versions)
      else ListVersions_loop name backups versions)"

definition ListVersions :: "'st Backend \<Rightarrow> 'st \<Rightarrow> string \<Rightarrow> error + VersionInfo list" where
  "ListVersions B st name =
     (let name = cleanSnapshotName name in
      case be_List B st of
        Inl e \<Rightarrow> Inl e
      | Inr backups \<Rightarrow> Inr (ListVersions_loop name backups []))"

fun GetLatestVersion_loop :: "VersionInfo \<Rightarrow> VersionInfo list \<Rightarrow> VersionInfo" where
  "GetLatestVersion_loop latestVersion [] = latestVersion"
| "GetLatestVersion_loop latestVersion (v # vs) =
     GetLatestVersion_loop
       (if vi_CreatedAt v > vi_CreatedAt latestVersion then v else latestVersion) vs"

definition GetLatestVersion :: "'st Backend \<Rightarrow> 'st \<Rightarrow> string \<Rightarrow> error + string" where
  "GetLatestVersion B st name =
     (case ListVersions B st name of
        Inl e \<Rightarrow> Inl e
      | Inr versions \<Rightarrow>
          (case versions of
             [] \<Rightarrow> Inl (Errorf (''no versions found for snapshot '' @ name))
           | v0 # rest \<Rightarrow> Inr (vi_Version (GetLatestVersion_loop v0 versions))))"

definition GetSnapshot :: "'st Backend \<Rightarrow> 'st \<Rightarrow> string \<Rightarrow> error + Backup" where
  "GetSnapshot B st nameOrVersioned =
     (let nameOrVersioned = cleanSnapshotName nameOrVersioned in
      if CHR ''@'' \<in> set nameOrVersioned then be_Retrieve B st nameOrVersioned
      else
        (case GetLatestVersion B st nameOrVersioned of
           Inl e \<Rightarrow> Inl e
         | Inr latestVersion \<Rightarrow> be_Retrieve B st (nameOrVersioned @ ''@'' @ latestVersion)))"

fun DeleteSnapshot_loop ::
  "'st Backend \<Rightarrow> string \<Rightarrow> VersionInfo list \<Rightarrow> 'st \<Rightarrow> error option \<times> 'st" where
  "DeleteSnapshot_loop B name [] st = (None, st)"
| "DeleteSnapshot_loop B name (version # versions) st =
     (case be_Delete B st (name @ ''@'' @ vi_Version version) of
        (Some e, st') \<Rightarrow> (Some (Wrapped (''failed to delete version '' @ vi_Version version) e), st')
      | (None, st') \<Rightarrow> DeleteSnapshot_loop B name versions st')"

definition DeleteSnapshot :: "'st Backend \<Rightarrow> 'st \<Rightarrow> string \<Rightarrow> error option \<times> 'st" where
  "DeleteSnapshot B st nameOrVersioned =
     (let nameOrVersioned = cleanSnapshotName nameOrVersioned in
      if CHR ''@'' \<in> set nameOrVersioned then be_Delete B st nameOrVersioned
      else
        (case ListVersions B st nameOrVersioned of
           Inl e \<Rightarrow> (Some (Wrapped ''failed to list versions for deletion'' e), st)
         | Inr versions \<Rightarrow>
             if versions = []
             then (Some (Errorf (''no snapshots found with name '' @ nameOrVersioned)), st)
             else DeleteSnapshot_loop B nameOrVersioned versions st))"

text \<open>
  Concrete inputs for running the storage layer: an operating system on which nothing
  fails, the metadata a snapshot named \<open>name\<close> gets for a version token and a creation
  instant, and a backup as the orchestrator hands it to \<^verbatim>\<open>StoreSnapshot\<close>.
\<close>

definition demo_os :: os_env where
  "demo_os =
     \<lparr>create_fails = (\<lambda>n. False), write_fails = (\<lambda>n. False), remove_fails = (\<lambda>n. False),
      open_fails = (\<lambda>n. False), readdir_fails = False, json_text = (\<lambda>m. [])\<rparr>"

definition demo_meta :: "string \<Rightarrow> string \<Rightarrow> int \<Rightarrow> BackupMetadata" where
  "demo_meta name version created =
     \<lparr>md_ID = name @ ''@'' @ version, md_Name = name, md_Type = ''volume-snapshot'', md_Size = 3,
      md_CreatedAt = created, md_ContainerID = [], md_VolumeName = ''v1'', md_ImageName = [],
      md_ImageTag = [], md_Description = [], md_Version = version, md_Encrypted = False\<rparr>"

definition demo_backup :: "bytes \<Rightarrow> Backup" where
  "demo_backup b =
     \<lparr>bk_ID = ''b1'',
      bk_Metadata =
        \<lparr>md_ID = [], md_Name = ''b1'', md_Type = ''direct-volume-backup'', md_Size = 3,
         md_CreatedAt = 0, md_ContainerID = [], md_VolumeName = ''v1'', md_ImageName = [],
         md_ImageTag = [], md_Description = [], md_Version = [], md_Encrypted = False\<rparr>,
      bk_DataReader = bytes_NewReader b\<rparr>"

text \<open>
  The directory after three backups of \<open>b1\<close> on a machine whose wall clock was set back
  between the first and the second: the second backup is created later (instant 200 after
  100) and gets the smaller token.
\<close>

definition demo_dir1 :: dir where
  "demo_dir1 =
     [(''b1@20240101-013000.tar.gz'', Bytes [1]),
      (''b1@20240101-013000.json'', Json (demo_meta ''b1'' ''20240101-013000'' 100))]"

definition demo_dir2 :: dir where
  "demo_dir2 = demo_dir1 @
     [(''b1@20240101-011000.tar.gz'', Bytes [2]),
      (''b1@20240101-011000.json'', Json (demo_meta ''b1'' ''20240101-011000'' 200))]"

definition demo_dir3 :: dir where
  "demo_dir3 = demo_dir2 @
     [(''b1@20240101-023000.tar.gz'', Bytes [3]),
      (''b1@20240101-023000.json'', Json (demo_meta ''b1'' ''20240101-023000'' 300))]"

text \<open>A directory after three backups with a clock that only advances: two of \<open>b1\<close>, one of \<open>b2\<close>.\<close>

definition demo_dir4 :: dir where
  "demo_dir4 = demo_dir1 @
     [(''b1@20240101-023000.tar.gz'', Bytes [3]),
      (''b1@20240101-023000.json'', Json (demo_meta ''b1'' ''20240101-023000'' 300)),
      (''b2@20240101-030000.tar.gz'', Bytes [4]),
      (''b2@20240101-030000.json'', Json (demo_meta ''b2'' ''20240101-030000'' 350))]"

text \<open>The version record \<^verbatim>\<open>ListVersions\<close> makes of a metadata record.\<close>

definition version_info :: "BackupMetadata \<Rightarrow> VersionInfo" where
  "version_info backup =
     \<lparr>vi_Version = tl (dropWhile (\<lambda>c. c \<noteq> CHR ''@'') (md_ID backup)), vi_Size = md_Size backup,
      vi_CreatedAt = md_CreatedAt backup, vi_Description = md_Description backup\<rparr>"

text \<open>The directory after one backup under the name \<open>b1.zip.zip\<close>, which is cleaned to \<open>b1.zip\<close>.\<close>

definition demo_zip_dir :: dir where
  "demo_zip_dir =
     [(''b1.zip@20240101-000000.tar.gz'', Bytes [1]),
      (''b1.zip@20240101-000000.json'', Json (demo_meta ''b1.zip'' ''20240101-000000'' 100))]"

text \<open>
  Inputs for running \<^verbatim>\<open>LocalStorage.Store\<close>: a snapshot of \<open>b1\<close> taken in the same second
  as the one of \<open>demo_dir1\<close> (the same id) whose data stream breaks after one byte, an
  operating system on which the metadata file of that id cannot be created, and one on
  which, besides, no file can be removed.
\<close>

definition demo_broken_backup :: Backup where
  "demo_broken_backup =
     \<lparr>bk_ID = ''b1@20240101-013000'', bk_Metadata = demo_meta ''b1'' ''20240101-013000'' 101,
      bk_DataReader = [Data [2], Fault]\<rparr>"

definition demo_nometa_os :: os_env where
  "demo_nometa_os = demo_os\<lparr>create_fails := (\<lambda>n. n = ''b1@20240101-013000.json'')\<rparr>"

definition demo_stuck_os :: os_env where
  "demo_stuck_os = demo_nometa_os\<lparr>remove_fails := (\<lambda>n. True)\<rparr>"

section \<open>The restore orchestrator\<close>

text \<open>
  What \<^verbatim>\<open>RestoreDirectVolume\<close> sees of its client and collaborators: the storage backend
  with its state (\<open>None\<close> for a nil backend), the configured password, the container
  engine's answers about the target volume, what the confirmation prompt read ("N" when
  reading failed), what the password prompt returns, whether the temporary file can be
  created and closed, and the extraction step \<^verbatim>\<open>restoreDirectVolume\<close> applied to the
  archive in the temporary file.
\<close>

record 'st restore_env =
  c_storage :: "('st Backend \<times> 'st) option"
  c_password :: string
  docker_VolumeExists :: "string \<Rightarrow> error + bool"
  docker_GetVolume :: "string \<Rightarrow> error option"
  prompt_response :: string
  promptPassword :: string
  os_CreateTemp_fails :: bool
  tempFile_Close_fails :: bool
  restoreDirectVolume :: "bytes \<Rightarrow> error option"

datatype final_reader = PlainReader reader | DecryptingReader DecryptReader

text \<open>
  The decryption step of \<^verbatim>\<open>RestoreDirectVolume\<close>: for a backup marked encrypted, one read
  of up to 512 bytes into a zeroed buffer, the magic tag checked on the buffer, the
  password taken from the configuration or the prompt, and the header and the decrypting
  reader made from the bytes read followed by the rest of the stream.
\<close>

definition restore_finalReader :: "crypto \<Rightarrow> 'st restore_env \<Rightarrow> Backup \<Rightarrow> error + final_reader" where
  "restore_finalReader C env backup =
     (if md_Encrypted (bk_Metadata backup) then
        (case reader_Read (bk_DataReader backup) 512 of
           ((buf, Some e), r') \<Rightarrow> Inl (Wrapped ''failed to read backup header'' e)
         | ((buf, None), r') \<Rightarrow>
             (let headerBytes = buf @ replicate (512 - length buf) 0 in
              if \<not> IsEncrypted headerBytes
              then Inl (Errorf ''backup marked as encrypted but no encryption header found'')
              else
                (let password = (if c_password env = [] then promptPassword env else c_password env) in
                 if password = [] then Inl (Errorf ''decryption password is required'')
                 else
                   (let remainingReader = io_MultiReader [bytes_NewReader buf, r'] in
                    case ReadEncryptionHeader remainingReader of
                      (Inl e, rest) \<Rightarrow> Inl (Wrapped ''failed to read encryption header'' e)
                    | (Inr header, rest) \<Rightarrow>
                        (case NewDecryptReader C rest password header of
                           Inl e \<Rightarrow> Inl (Wrapped ''failed to create decryption'' e)
                         | Inr decryptReader \<Rightarrow> Inr (DecryptingReader decryptReader))))))
      else Inr (PlainReader (bk_DataReader backup)))"

text \<open>\<^verbatim>\<open>io.Copy(writer, finalReader)\<close> into the temporary file, with the 32 KiB buffer of \<^verbatim>\<open>io.Copy\<close>.\<close>

definition final_Copy :: "crypto \<Rightarrow> final_reader \<Rightarrow> (bytes \<times> error option) option" where
  "final_Copy C finalReader =
     (case finalReader of
        PlainReader r \<Rightarrow> Some (reader_copy r)
      | DecryptingReader dr \<Rightarrow> io_Copy (DecryptReader_Read C) (32 * 1024) [] dr)"

text \<open>
  The result is the error returned (\<open>None\<close> for nil) and the archive handed to the
  extraction step, \<open>None\<close> when the extraction step was not reached.
\<close>

definition RestoreDirectVolume ::
  "crypto \<Rightarrow> 'st restore_env \<Rightarrow> string \<Rightarrow> string \<Rightarrow> bool \<Rightarrow> bool \<Rightarrow> (error option \<times> bytes option) option" where
  "RestoreDirectVolume C env volumeName snapshotName dryRun force =
     (case c_storage env of
        None \<Rightarrow> Some (Some (Errorf ''storage backend is required for volume operations''), None)
      | Some (B, st) \<Rightarrow>
     (case docker_VolumeExists env volumeName of
        Inl e \<Rightarrow> Some (Some (Wrapped ''failed to check target volume'' e), None)
      | Inr exists \<Rightarrow>
          if \<not> exists
          then Some (Some (Errorf (''target volume '' @ volumeName @ '' not found'')), None)
          else
     (case docker_GetVolume env volumeName of
        Some e \<Rightarrow> Some (Some e, None)
      | None \<Rightarrow>
     (case GetSnapshot B st snapshotName of
        Inl e \<Rightarrow> Some (Some (Wrapped ''failed to retrieve volume backup'' e), None)
      | Inr backup \<Rightarrow>
          if dryRun then Some (None, None)
          else if \<not> force \<and> prompt_response env \<noteq> ''y'' \<and> prompt_response env \<noteq> ''Y''
          then Some (None, None)
          else if os_CreateTemp_fails env
          then Some (Some (Wrapped ''failed to create temp file'' IOFailure), None)
          else
     (case restore_finalReader C env backup of
        Inl e \<Rightarrow> Some (Some e, None)
      | Inr finalReader \<Rightarrow>
     (case final_Copy C finalReader of
        None \<Rightarrow> None
      | Some (written, Some e) \<Rightarrow> Some (Some (Wrapped ''failed to write backup data'' e), None)
      | Some (written, None) \<Rightarrow>
          if tempFile_Close_fails env
          then Some (Some (Wrapped ''failed to close temp file'' IOFailure), None)
          else
            (case restoreDirectVolume env written of
               Some e \<Rightarrow> Some (Some (Wrapped ''failed to restore volume'' e), Some written)
             | None \<Rightarrow> Some (None, Some written))))))))"

text \<open>
  Inputs for running the restore: a directory with one snapshot \<open>e1\<close> marked encrypted whose
  data file holds the given bytes, and a client on the filesystem backend with that
  directory, the password "pw", a target volume that exists, the answer "y" and an
  extraction step that succeeds.
\<close>

definition demo_enc_dir :: "bytes \<Rightarrow> dir" where
  "demo_enc_dir b =
     [(''e1@20240101-000000.tar.gz'', Bytes b),
      (''e1@20240101-000000.json'',
       Json ((demo_meta ''e1'' ''20240101-000000'' 100)\<lparr>md_Encrypted := True\<rparr>))]"

definition demo_client :: "bytes \<Rightarrow> dir restore_env" where
  "demo_client b =
     \<lparr>c_storage = Some (LocalStorage demo_os, demo_enc_dir b), c_password = ''pw'',
      docker_VolumeExists = (\<lambda>v. Inr True), docker_GetVolume = (\<lambda>v. None),
      prompt_response = ''y'', promptPassword = [], os_CreateTemp_fails = False,
      tempFile_Close_fails = False, restoreDirectVolume = (\<lambda>archive. None)\<rparr>"

text \<open>
  An archive of 444 bytes and the stream the backup side writes for it under the
  password "pw", with \<open>demo_rand\<close> for salt and nonce: 513 bytes, one more than the restore
  looks at first.
\<close>

definition demo_plain :: bytes where
  "demo_plain = replicate 444 7"

definition demo_sealed :: bytes where
  "demo_sealed =
     magic @ [1] @ take 32 demo_rand @ take 12 (drop 32 demo_rand) @
     gcm_Seal ref_crypto (DeriveKey ref_crypto ''pw'' (take 32 demo_rand))
       (er_chunkNonce (take 12 (drop 32 demo_rand)) 0) demo_plain"




section \<open>Properties of the io model\<close>

lemma reader_data_skip:
  "n \<le> length (reader_data r) \<Longrightarrow> reader_data (reader_skip n r) = drop n (reader_data r)"
  by (induction n r rule: reader_skip.induct) auto

lemma io_ReadAtLeast_loop_enough:
  "length got < want \<Longrightarrow> want - length got \<le> length (reader_data r) \<Longrightarrow>
   io_ReadAtLeast_loop r want got =
     ((got @ take (want - length got) (reader_data r), None), reader_skip (want - length got) r)"
proof (induction r arbitrary: got)
  case Nil
  then show ?case by simp
next
  case (Cons d r)
  show ?case
  proof (cases d)
    case Fault
    with Cons.prems show ?thesis by simp
  next
    case (Data s)
    show ?thesis
    proof (cases "length s < want - length got")
      case True
      then have lt: "length (got @ s) < want" by simp
      have le: "want - length (got @ s) \<le> length (reader_data r)"
        using Cons.prems Data True by simp
      have "io_ReadAtLeast_loop (d # r) want got = io_ReadAtLeast_loop r want (got @ s)"
        using Cons.prems(1) True Data by (subst io_ReadAtLeast_loop.simps) simp
      also have "\<dots> = (((got @ s) @ take (want - length (got @ s)) (reader_data r), None),
                      reader_skip (want - length (got @ s)) r)"
        by (rule Cons.IH[OF lt le])
      finally show ?thesis using True Data Cons.prems(1) by simp
    next
      case False
      have "io_ReadAtLeast_loop (d # r) want got =
            io_ReadAtLeast_loop (if length s \<le> want - length got then r else Data (drop (want - length got) s) # r)
               want (got @ take (want - length got) s)"
        using Cons.prems(1) Data by (subst io_ReadAtLeast_loop.simps) simp
      also have "\<dots> = ((got @ take (want - length got) s, None),
                       (if length s \<le> want - length got then r else Data (drop (want - length got) s) # r))"
        using False Cons.prems(1) by (subst io_ReadAtLeast_loop.simps) simp
      finally show ?thesis using False Data Cons.prems(1) by auto
    qed
  qed
qed

lemma io_ReadAtLeast_loop_short:
  "length got + length (reader_data r) < want \<Longrightarrow>
   \<exists>got' e r'. io_ReadAtLeast_loop r want got = ((got', Some e), r') \<and> length got' < want"
proof (induction r arbitrary: got)
  case Nil
  then show ?case by (subst io_ReadAtLeast_loop.simps) simp
next
  case (Cons d r)
  show ?case
  proof (cases d)
    case Fault
    with Cons.prems show ?thesis by (subst io_ReadAtLeast_loop.simps) simp
  next
    case (Data s)
    with Cons.prems have lt: "length (got @ s) + length (reader_data r) < want" by simp
    from Cons.prems Data have le: "length s \<le> want - length got" "length got < want" by simp_all
    have "io_ReadAtLeast_loop (d # r) want got = io_ReadAtLeast_loop r want (got @ s)"
      using le Data by (subst io_ReadAtLeast_loop.simps) simp
    with Cons.IH[OF lt] show ?thesis by simp
  qed
qed

lemma io_ReadFull_enough:
  "0 < n \<Longrightarrow> n \<le> length (reader_data r) \<Longrightarrow>
   io_ReadFull r n = ((take n (reader_data r), None), reader_skip n r)"
  using io_ReadAtLeast_loop_enough[of "[]" n r] by (simp add: io_ReadFull_def)

lemma io_ReadFull_short:
  "length (reader_data r) < n \<Longrightarrow> \<exists>got e r'. io_ReadFull r n = ((got, Some e), r')"
  using io_ReadAtLeast_loop_short[of "[]" r n] by (auto simp: io_ReadFull_def)

lemma io_ReadFull_ok_iff:
  "0 < n \<Longrightarrow> io_ReadFull r n = ((bs, None), r') \<longleftrightarrow>
     n \<le> length (reader_data r) \<and> bs = take n (reader_data r) \<and> r' = reader_skip n r"
  using io_ReadFull_enough[of n r] io_ReadFull_short[of r n]
  by (cases "n \<le> length (reader_data r)") auto

lemma reader_data_bytes_NewReader [simp]: "reader_data (bytes_NewReader b) = b"
  by (simp add: bytes_NewReader_def)

lemma reader_skip_bytes_NewReader:
  "0 < n \<Longrightarrow> reader_skip n (bytes_NewReader b) = bytes_NewReader (drop n b)"
  by (auto simp: bytes_NewReader_def)

lemma length_magic [simp]: "length magic = 8"
  by (simp add: magic_def bytes_of_string_def)

lemma ReadEncryptionHeader_ok:
  assumes "ReadEncryptionHeader r = (Inr h, r')"
  shows "reader_data r = magic @ [1] @ Salt h @ Nonce h @ reader_data r' \<and>
         length (Salt h) = 32 \<and> length (Nonce h) = 12 \<and>
         r' = reader_skip 12 (reader_skip 32 (reader_skip 1 (reader_skip 8 r)))"
proof -
  obtain mg r1 where f1: "io_ReadFull r 8 = ((mg, None), r1)" and mg: "mg = magic"
    using assms by (auto simp: ReadEncryptionHeader_def split: prod.splits option.splits if_splits)
  obtain v r2 where f2: "io_ReadFull r1 1 = ((v, None), r2)" and v: "v = [1]"
    using assms f1 mg by (auto simp: ReadEncryptionHeader_def split: prod.splits option.splits if_splits)
  obtain salt r3 where f3: "io_ReadFull r2 32 = ((salt, None), r3)"
    using assms f1 mg f2 v
    by (auto simp: ReadEncryptionHeader_def SaltSize_def split: prod.splits option.splits if_splits)
  obtain nonce where f4: "io_ReadFull r3 12 = ((nonce, None), r')" and h: "h = \<lparr>Salt = salt, Nonce = nonce\<rparr>"
    using assms f1 mg f2 v f3
    by (auto simp: ReadEncryptionHeader_def SaltSize_def NonceSize_def split: prod.splits option.splits if_splits)
  from f1 have a1: "8 \<le> length (reader_data r)" "mg = take 8 (reader_data r)" "r1 = reader_skip 8 r"
    by (simp_all add: io_ReadFull_ok_iff)
  then have d1: "reader_data r1 = drop 8 (reader_data r)" by (simp add: reader_data_skip)
  from f2 have a2: "1 \<le> length (reader_data r1)" "v = take 1 (reader_data r1)" "r2 = reader_skip 1 r1"
    by (simp_all add: io_ReadFull_ok_iff)
  then have d2: "reader_data r2 = drop 1 (reader_data r1)" by (simp add: reader_data_skip)
  from f3 have a3: "32 \<le> length (reader_data r2)" "salt = take 32 (reader_data r2)" "r3 = reader_skip 32 r2"
    by (simp_all add: io_ReadFull_ok_iff)
  then have d3: "reader_data r3 = drop 32 (reader_data r2)" by (simp add: reader_data_skip)
  from f4 have a4: "12 \<le> length (reader_data r3)" "nonce = take 12 (reader_data r3)" "r' = reader_skip 12 r3"
    by (simp_all add: io_ReadFull_ok_iff)
  then have d4: "reader_data r' = drop 12 (reader_data r3)" by (simp add: reader_data_skip)
  have "reader_data r = mg @ reader_data r1" using a1 d1 by simp
  also have "reader_data r1 = v @ reader_data r2" using a2 d2 by simp
  also have "reader_data r2 = salt @ reader_data r3" using a3 d3 by simp
  also have "reader_data r3 = nonce @ reader_data r'" using a4 d4 by simp
  finally have "reader_data r = magic @ [1] @ Salt h @ Nonce h @ reader_data r'"
    using mg v h by simp
  moreover have "length (Salt h) = 32" using a3 h by simp
  moreover have "length (Nonce h) = 12" using a4 h by simp
  moreover have "r' = reader_skip 12 (reader_skip 32 (reader_skip 1 (reader_skip 8 r)))"
    using a1 a2 a3 a4 by simp
  ultimately show ?thesis by simp
qed

lemma ReadEncryptionHeader_accepts:
  assumes "reader_data r = magic @ [1] @ salt @ nonce @ rest" "length salt = 32" "length nonce = 12"
  shows "ReadEncryptionHeader r =
           (Inr \<lparr>Salt = salt, Nonce = nonce\<rparr>,
            reader_skip 12 (reader_skip 32 (reader_skip 1 (reader_skip 8 r))))"
proof -
  let ?r1 = "reader_skip 8 r"
  let ?r2 = "reader_skip 1 ?r1"
  let ?r3 = "reader_skip 32 ?r2"
  have f1: "io_ReadFull r 8 = ((magic, None), ?r1)"
    using assms by (simp add: io_ReadFull_enough)
  have d1: "reader_data ?r1 = [1] @ salt @ nonce @ rest"
    using assms by (simp add: reader_data_skip)
  have f2: "io_ReadFull ?r1 1 = (([1], None), ?r2)"
    using d1 by (simp add: io_ReadFull_enough)
  have d2: "reader_data ?r2 = salt @ nonce @ rest"
    using d1 by (simp add: reader_data_skip)
  have f3: "io_ReadFull ?r2 32 = ((salt, None), ?r3)"
    using d2 assms by (simp add: io_ReadFull_enough)
  have d3: "reader_data ?r3 = nonce @ rest"
    using d2 assms by (simp add: reader_data_skip)
  have f4: "io_ReadFull ?r3 12 = ((nonce, None), reader_skip 12 ?r3)"
    using d3 assms by (simp add: io_ReadFull_enough)
  show ?thesis
    using f1 f2 f3 f4 by (simp add: ReadEncryptionHeader_def SaltSize_def NonceSize_def)
qed

lemma ReadEncryptionHeader_bytes_NewReader:
  assumes "length salt = 32" "length nonce = 12"
  shows "ReadEncryptionHeader (bytes_NewReader (magic @ [1] @ salt @ nonce @ rest)) =
           (Inr \<lparr>Salt = salt, Nonce = nonce\<rparr>, bytes_NewReader rest)"
proof -
  have "reader_skip 12 (reader_skip 32 (reader_skip 1 (reader_skip 8
          (bytes_NewReader (magic @ [1] @ salt @ nonce @ rest))))) = bytes_NewReader rest"
    using assms by (simp add: reader_skip_bytes_NewReader)
  with ReadEncryptionHeader_accepts[of "bytes_NewReader (magic @ [1] @ salt @ nonce @ rest)" salt nonce rest]
  show ?thesis using assms by simp
qed

lemma WriteEncryptionHeader_bytes_Buffer:
  "WriteEncryptionHeader bytes_Buffer h =
     (None, \<lparr>w_data = magic @ [1] @ Salt h @ Nonce h, w_room = None\<rparr>)"
  by (simp add: WriteEncryptionHeader_def writer_Write_def bytes_Buffer_def)

lemma decrypt_stream_header_error:
  "ReadEncryptionHeader r = (Inl e, r') \<Longrightarrow>
   decrypt_stream C password r n = Some (Inl (Wrapped ''failed to read encryption header'' e))"
  by (simp add: decrypt_stream_def)

text \<open>
  Claim C4. \<^verbatim>\<open>ReadEncryptionHeader\<close> accepts exactly the streams whose bytes begin with the
  magic tag "DVOM-ENC", the version byte 1, a 32-byte salt and a 12-byte nonce, and
  returns that salt and nonce, leaving the rest of the stream to be read; on every other
  stream it returns an error, and decryption stops there with that error, before a
  decrypting reader exists. \<^verbatim>\<open>WriteEncryptionHeader\<close> writes to a buffer, for a header with
  a 32-byte salt and a 12-byte nonce, exactly these 53 bytes, and reading them back gives
  the header that was written.
\<close>

theorem C4_encryption_header:
  "((\<exists>h r'. ReadEncryptionHeader r = (Inr h, r')) \<longleftrightarrow>
      (\<exists>salt nonce rest. reader_data r = magic @ [1] @ salt @ nonce @ rest \<and>
         length salt = 32 \<and> length nonce = 12)) \<and>
   (\<forall>h r'. ReadEncryptionHeader r = (Inr h, r') \<longrightarrow>
      reader_data r = magic @ [1] @ Salt h @ Nonce h @ reader_data r' \<and>
      length (Salt h) = SaltSize \<and> length (Nonce h) = NonceSize) \<and>
   (\<forall>e r'. ReadEncryptionHeader r = (Inl e, r') \<longrightarrow>
      decrypt_stream C password r n =
        Some (Inl (Wrapped ''failed to read encryption header'' e))) \<and>
   (length (Salt header) = SaltSize \<and> length (Nonce header) = NonceSize \<longrightarrow>
      (\<exists>w. WriteEncryptionHeader bytes_Buffer header = (None, w) \<and>
           w_data w = magic @ [1] @ Salt header @ Nonce header \<and> length (w_data w) = 53 \<and>
           ReadEncryptionHeader (bytes_NewReader (w_data w @ rest)) =
             (Inr header, bytes_NewReader rest)))"
proof (intro conjI allI impI)
  show "(\<exists>h r'. ReadEncryptionHeader r = (Inr h, r')) \<longleftrightarrow>
      (\<exists>salt nonce rest. reader_data r = magic @ [1] @ salt @ nonce @ rest \<and>
         length salt = 32 \<and> length nonce = 12)"
  proof
    assume "\<exists>h r'. ReadEncryptionHeader r = (Inr h, r')"
    then obtain h r' where "ReadEncryptionHeader r = (Inr h, r')" by blast
    from ReadEncryptionHeader_ok[OF this]
    show "\<exists>salt nonce rest. reader_data r = magic @ [1] @ salt @ nonce @ rest \<and>
         length salt = 32 \<and> length nonce = 12" by blast
  next
    assume "\<exists>salt nonce rest. reader_data r = magic @ [1] @ salt @ nonce @ rest \<and>
         length salt = 32 \<and> length nonce = 12"
    then obtain salt nonce rest where "reader_data r = magic @ [1] @ salt @ nonce @ rest"
      "length salt = 32" "length nonce = 12" by blast
    from ReadEncryptionHeader_accepts[OF this]
    show "\<exists>h r'. ReadEncryptionHeader r = (Inr h, r')" by blast
  qed
next
  fix h r' assume "ReadEncryptionHeader r = (Inr h, r')"
  from ReadEncryptionHeader_ok[OF this]
  show "reader_data r = magic @ [1] @ Salt h @ Nonce h @ reader_data r'"
    "length (Salt h) = SaltSize" "length (Nonce h) = NonceSize"
    by (simp_all add: SaltSize_def NonceSize_def)
next
  fix e r' assume "ReadEncryptionHeader r = (Inl e, r')"
  then show "decrypt_stream C password r n =
        Some (Inl (Wrapped ''failed to read encryption header'' e))"
    by (rule decrypt_stream_header_error)
next
  assume len: "length (Salt header) = SaltSize \<and> length (Nonce header) = NonceSize"
  let ?w = "\<lparr>w_data = magic @ [1] @ Salt header @ Nonce header, w_room = None\<rparr>"
  have "ReadEncryptionHeader (bytes_NewReader (magic @ [1] @ Salt header @ Nonce header @ rest)) =
          (Inr \<lparr>Salt = Salt header, Nonce = Nonce header\<rparr>, bytes_NewReader rest)"
    using len by (intro ReadEncryptionHeader_bytes_NewReader) (simp_all add: SaltSize_def NonceSize_def)
  then have "ReadEncryptionHeader (bytes_NewReader (w_data ?w @ rest)) = (Inr header, bytes_NewReader rest)"
    by simp
  moreover have "length (w_data ?w) = 53"
    using len by (simp add: SaltSize_def NonceSize_def)
  ultimately show "\<exists>w. WriteEncryptionHeader bytes_Buffer header = (None, w) \<and>
           w_data w = magic @ [1] @ Salt header @ Nonce header \<and> length (w_data w) = 53 \<and>
           ReadEncryptionHeader (bytes_NewReader (w_data w @ rest)) =
             (Inr header, bytes_NewReader rest)"
    using WriteEncryptionHeader_bytes_Buffer[of header] by simp
qed

theorem C4_encryption_header_witness:
  "ReadEncryptionHeader
     (bytes_NewReader (bytes_of_string ''DVOM-ENC'' @ [1] @ replicate 32 7 @ replicate 12 9 @ [5, 6])) =
   (Inr \<lparr>Salt = replicate 32 7, Nonce = replicate 12 9\<rparr>, bytes_NewReader [5, 6]) \<and>
   ReadEncryptionHeader
     (bytes_NewReader (bytes_of_string ''DVOM-ENC'' @ [2] @ replicate 32 7 @ replicate 12 9 @ [5, 6])) =
   (Inl (Errorf ''unsupported encryption version: 2''), [Data (replicate 32 7 @ replicate 12 9 @ [5, 6])])"
proof -
  have "ReadEncryptionHeader
     (bytes_NewReader (bytes_of_string ''DVOM-ENC'' @ [1] @ replicate 32 7 @ replicate 12 9 @ [5, 6])) =
   (Inr \<lparr>Salt = replicate 32 7, Nonce = replicate 12 9\<rparr>, bytes_NewReader [5, 6])"
  proof -
    let ?h = "\<lparr>Salt = replicate 32 7, Nonce = replicate 12 9\<rparr>"
    have len: "length (Salt ?h) = SaltSize \<and> length (Nonce ?h) = NonceSize"
      by (simp add: SaltSize_def NonceSize_def)
    note C4_encryption_header[where r = "[]" and C = ref_crypto and password = "''pw''" and n = 1
        and header = ?h and rest = "[5, 6]", THEN conjunct2, THEN conjunct2, THEN conjunct2,
        THEN mp, OF len]
    then obtain w where w: "WriteEncryptionHeader bytes_Buffer ?h = (None, w) \<and>
           w_data w = magic @ [1] @ Salt ?h @ Nonce ?h \<and> length (w_data w) = 53 \<and>
           ReadEncryptionHeader (bytes_NewReader (w_data w @ [5, 6])) =
             (Inr ?h, bytes_NewReader [5, 6])"
      by (rule exE)
    note a = w[THEN conjunct2, THEN conjunct1]
    note b = w[THEN conjunct2, THEN conjunct2, THEN conjunct2]
    show ?thesis using b unfolding a by (simp add: magic_def)
  qed
  moreover have "ReadEncryptionHeader
     (bytes_NewReader (bytes_of_string ''DVOM-ENC'' @ [2] @ replicate 32 7 @ replicate 12 9 @ [5, 6])) =
   (Inl (Errorf ''unsupported encryption version: 2''), [Data (replicate 32 7 @ replicate 12 9 @ [5, 6])])"
    by (simp add: ReadEncryptionHeader_def io_ReadFull_def bytes_NewReader_def
        io_ReadAtLeast_loop.simps magic_def bytes_of_string_def fmt_d.simps)
  ultimately show ?thesis by simp
qed

section \<open>The chunk nonces\<close>

lemma length_er_nonce_loop [simp]: "length (er_nonce_loop i c cn) = length cn"
  by (induction i c cn rule: er_nonce_loop.induct) (subst er_nonce_loop.simps, simp)

lemma er_nonce_loop_nth:
  "k < length cn \<Longrightarrow>
   er_nonce_loop i c cn ! (length cn - Suc k) =
   (if i \<le> k \<and> k < 8 then (cn ! (length cn - Suc k)) XOR ucast (drop_bit (8 * k) c)
    else cn ! (length cn - Suc k))"
proof (induction i c cn rule: er_nonce_loop.induct)
  case (1 i c cn)
  show ?case
  proof (cases "i < 8 \<and> i < length cn")
    case True
    let ?cn' = "cn[length cn - 1 - i := (cn ! (length cn - 1 - i)) XOR ucast (drop_bit (8 * i) c)]"
    have len: "length ?cn' = length cn" by simp
    have step: "er_nonce_loop i c cn = er_nonce_loop (Suc i) c ?cn'"
      using True by (subst er_nonce_loop.simps) simp
    have IH: "er_nonce_loop (Suc i) c ?cn' ! (length cn - Suc k) =
      (if Suc i \<le> k \<and> k < 8 then (?cn' ! (length cn - Suc k)) XOR ucast (drop_bit (8 * k) c)
       else ?cn' ! (length cn - Suc k))"
      using "1.IH"[OF True] "1.prems" len by simp
    show ?thesis
    proof (cases "k = i")
      case keq: True
      have "length cn - Suc i < length cn" using True by arith
      then have "?cn' ! (length cn - Suc i) = (cn ! (length cn - Suc i)) XOR ucast (drop_bit (8 * i) c)"
        by simp
      with IH step True keq show ?thesis by simp
    next
      case False
      with "1.prems" True have "length cn - Suc k \<noteq> length cn - Suc i" by arith
      then have "?cn' ! (length cn - Suc k) = cn ! (length cn - Suc k)" by simp
      with IH step False show ?thesis by auto
    qed
  next
    case False
    then have "er_nonce_loop i c cn = cn"
      by (subst er_nonce_loop.simps) auto
    with False "1.prems" show ?thesis by auto
  qed
qed

lemma dr_nonce_loop_eq: "dr_nonce_loop i c cn = er_nonce_loop i c cn"
proof (induction i c cn rule: er_nonce_loop.induct)
  case (1 i c cn)
  show ?case
  proof (cases "i < 8 \<and> i < length cn")
    case True
    then show ?thesis
      using "1.IH" by (subst dr_nonce_loop.simps, subst er_nonce_loop.simps) simp
  next
    case False
    then show ?thesis
      by (subst dr_nonce_loop.simps, subst er_nonce_loop.simps) auto
  qed
qed

lemma length_er_chunkNonce [simp]: "length (er_chunkNonce b c) = length b"
  by (simp add: er_chunkNonce_def)

lemma dr_chunkNonce_eq: "dr_chunkNonce b c = er_chunkNonce b c"
  by (simp add: dr_chunkNonce_def er_chunkNonce_def dr_nonce_loop_eq)

lemma er_chunkNonce_low:
  "k < 8 \<Longrightarrow> k < length b \<Longrightarrow>
   er_chunkNonce b c ! (length b - Suc k) = (b ! (length b - Suc k)) XOR ucast (drop_bit (8 * k) c)"
  by (simp add: er_chunkNonce_def er_nonce_loop_nth)

lemma er_chunkNonce_high:
  "8 \<le> k \<Longrightarrow> k < length b \<Longrightarrow> er_chunkNonce b c ! (length b - Suc k) = b ! (length b - Suc k)"
  by (simp add: er_chunkNonce_def er_nonce_loop_nth)

lemma counter_bytes_inj:
  fixes c d :: uint64
  assumes "\<And>k. k < 8 \<Longrightarrow> (ucast (drop_bit (8 * k) c) :: byte) = ucast (drop_bit (8 * k) d)"
  shows "c = d"
proof (rule bit_word_eqI)
  fix n assume n: "n < LENGTH(64)"
  then have k: "n div 8 < 8" by simp
  have "bit (ucast (drop_bit (8 * (n div 8)) c) :: byte) (n mod 8)
      = bit (ucast (drop_bit (8 * (n div 8)) d) :: byte) (n mod 8)"
    using assms[OF k] by simp
  then show "bit c n = bit d n"
    by (simp add: bit_ucast_iff bit_drop_bit_eq)
qed

lemma er_chunkNonce_inj:
  assumes "8 \<le> length b" "er_chunkNonce b c = er_chunkNonce b d"
  shows "c = d"
proof (rule counter_bytes_inj)
  fix k :: nat assume k: "k < 8"
  with assms have kl: "k < length b" by simp
  have "er_chunkNonce b c ! (length b - Suc k) = er_chunkNonce b d ! (length b - Suc k)"
    using assms by simp
  then have "(b ! (length b - Suc k)) XOR (ucast (drop_bit (8 * k) c) :: byte)
           = (b ! (length b - Suc k)) XOR ucast (drop_bit (8 * k) d)"
    using k kl by (simp add: er_chunkNonce_low)
  then have "(b ! (length b - Suc k)) XOR ((b ! (length b - Suc k)) XOR (ucast (drop_bit (8 * k) c) :: byte))
           = (b ! (length b - Suc k)) XOR ((b ! (length b - Suc k)) XOR ucast (drop_bit (8 * k) d))"
    by simp
  then show "(ucast (drop_bit (8 * k) c) :: byte) = ucast (drop_bit (8 * k) d)"
    by (simp only: xor.assoc[symmetric] xor_self_eq xor.left_neutral)
qed

lemma uint64_of_nat_inj:
  "i < 2 ^ 64 \<Longrightarrow> j < 2 ^ 64 \<Longrightarrow> (of_nat i :: uint64) = of_nat j \<Longrightarrow> i = j"
  by (simp add: word_of_nat_eq_iff take_bit_nat_eq_self)

text \<open>
  Claim C3. For a 12-byte base nonce, the nonce of a chunk is the base nonce with the
  eight bytes of the chunk counter (least significant byte last) XOR-ed into its last
  eight bytes and its first four bytes unchanged; the nonces of two different chunk
  counters below \<open>2^64\<close> are different, so the nonces of the chunks \<open>0, \<dots>, N - 1\<close> are
  pairwise distinct for every \<open>N\<close> up to \<open>2^64\<close>; and the decrypting reader derives, for
  the same counter, the nonce the encrypting reader derives.
\<close>

theorem C3_chunk_nonces:
  "length baseNonce = NonceSize \<longrightarrow>
     (\<forall>i j. i < j \<and> j < 2 ^ 64 \<longrightarrow>
        er_chunkNonce baseNonce (of_nat i) \<noteq> er_chunkNonce baseNonce (of_nat j)) \<and>
     (\<forall>counter. dr_chunkNonce baseNonce counter = er_chunkNonce baseNonce counter) \<and>
     (\<forall>counter k. k < 8 \<longrightarrow>
        er_chunkNonce baseNonce counter ! (11 - k) =
          (baseNonce ! (11 - k)) XOR ucast (drop_bit (8 * k) counter)) \<and>
     (\<forall>counter k. k < 4 \<longrightarrow> er_chunkNonce baseNonce counter ! k = baseNonce ! k) \<and>
     (\<forall>counter. length (er_chunkNonce baseNonce counter) = NonceSize)"
proof (intro impI conjI allI)
  fix i j :: nat
  assume len: "length baseNonce = NonceSize" and ij: "i < j \<and> j < 2 ^ 64"
  show "er_chunkNonce baseNonce (of_nat i) \<noteq> er_chunkNonce baseNonce (of_nat j)"
  proof
    assume "er_chunkNonce baseNonce (of_nat i) = er_chunkNonce baseNonce (of_nat j)"
    with len have "(of_nat i :: uint64) = of_nat j"
      by (intro er_chunkNonce_inj[of baseNonce]) (simp_all add: NonceSize_def)
    with ij have "i = j" by (intro uint64_of_nat_inj) simp_all
    with ij show False by simp
  qed
next
  fix counter
  show "dr_chunkNonce baseNonce counter = er_chunkNonce baseNonce counter"
    by (rule dr_chunkNonce_eq)
next
  fix counter :: uint64 and k :: nat
  assume len: "length baseNonce = NonceSize" and k: "k < 8"
  then show "er_chunkNonce baseNonce counter ! (11 - k) =
          (baseNonce ! (11 - k)) XOR ucast (drop_bit (8 * k) counter)"
    using er_chunkNonce_low[of k baseNonce counter] by (simp add: NonceSize_def)
next
  fix counter :: uint64 and k :: nat
  assume len: "length baseNonce = NonceSize" and k: "k < 4"
  then have "er_chunkNonce baseNonce counter ! (length baseNonce - Suc (11 - k)) =
             baseNonce ! (length baseNonce - Suc (11 - k))"
    by (intro er_chunkNonce_high) (simp_all add: NonceSize_def)
  with len k show "er_chunkNonce baseNonce counter ! k = baseNonce ! k"
    by (simp add: NonceSize_def)
next
  fix counter
  assume "length baseNonce = NonceSize"
  then show "length (er_chunkNonce baseNonce counter) = NonceSize"
    by (simp add: er_chunkNonce_def)
qed

theorem C3_chunk_nonces_witness:
  "er_chunkNonce [1, 2, 3, 4, 5, 6, 7, 8, 9, 10, 11, 12] 0 \<noteq>
     er_chunkNonce [1, 2, 3, 4, 5, 6, 7, 8, 9, 10, 11, 12] 1 \<and>
   er_chunkNonce [1, 2, 3, 4, 5, 6, 7, 8, 9, 10, 11, 12] 258 =
     [1, 2, 3, 4, 5, 6, 7, 8, 9, 10, 10, 14] \<and>
   dr_chunkNonce [1, 2, 3, 4, 5, 6, 7, 8, 9, 10, 11, 12] 258 =
     [1, 2, 3, 4, 5, 6, 7, 8, 9, 10, 10, 14]"
proof -
  let ?b = "[1, 2, 3, 4, 5, 6, 7, 8, 9, 10, 11, 12] :: bytes"
  have len: "length ?b = NonceSize" by (simp add: NonceSize_def)
  note c3 = C3_chunk_nonces[where baseNonce = ?b, THEN mp, OF len]
  have "er_chunkNonce ?b (of_nat 0) \<noteq> er_chunkNonce ?b (of_nat 1)"
    using c3[THEN conjunct1, rule_format, of 0 1] by simp
  then have a: "er_chunkNonce ?b 0 \<noteq> er_chunkNonce ?b 1" by simp
  have b: "er_chunkNonce ?b 258 = [1, 2, 3, 4, 5, 6, 7, 8, 9, 10, 10, 14]"
    by (simp add: er_chunkNonce_def er_nonce_loop.simps)
  have c: "dr_chunkNonce ?b 258 = er_chunkNonce ?b 258"
    using c3[THEN conjunct2, THEN conjunct1] by simp
  show ?thesis using a b c by simp
qed

section \<open>The codec on streams\<close>

lemma reader_Read_bytes_NewReader:
  "0 < n \<Longrightarrow> reader_Read (bytes_NewReader d) n =
     ((take n d, if d = [] then Some EOF else None), bytes_NewReader (drop n d))"
  by (auto simp: bytes_NewReader_def)

lemma er_drain:
  "0 < n \<Longrightarrow> er_encrypted er = pend \<Longrightarrow>
   io_Copy (header_MultiReader_Read C) n dst ([], er) =
   io_Copy (header_MultiReader_Read C) n (dst @ pend) ([], er\<lparr>er_encrypted := []\<rparr>)"
proof (induction "length pend" arbitrary: pend dst er rule: less_induct)
  case less
  show ?case
  proof (cases "pend = []")
    case True
    with less.prems have "er\<lparr>er_encrypted := []\<rparr> = er" by (cases er) simp
    with True show ?thesis by simp
  next
    case False
    let ?er' = "er\<lparr>er_encrypted := drop n pend\<rparr>"
    have step: "header_MultiReader_Read C ([], er) n = ((take n pend, None), ([], ?er'))"
      using False less.prems by (simp add: header_MultiReader_Read_def EncryptReader_Read_def)
    have "io_Copy (header_MultiReader_Read C) n dst ([], er) =
          io_Copy (header_MultiReader_Read C) n (dst @ take n pend) ([], ?er')"
      by (subst io_Copy.simps) (simp add: step)
    also have "\<dots> = io_Copy (header_MultiReader_Read C) n ((dst @ take n pend) @ drop n pend)
                      ([], ?er'\<lparr>er_encrypted := []\<rparr>)"
      using False less.prems by (intro less.hyps) simp_all
    finally show ?thesis by simp
  qed
qed

lemma header_drain:
  "0 < n \<Longrightarrow>
   io_Copy (header_MultiReader_Read C) n dst (hdr, er) =
   io_Copy (header_MultiReader_Read C) n (dst @ hdr) ([], er)"
proof (induction "length hdr" arbitrary: hdr dst rule: less_induct)
  case less
  show ?case
  proof (cases "hdr = []")
    case True
    then show ?thesis by simp
  next
    case False
    have step: "header_MultiReader_Read C (hdr, er) n = ((take n hdr, None), (drop n hdr, er))"
      using False by (simp add: header_MultiReader_Read_def)
    have "io_Copy (header_MultiReader_Read C) n dst (hdr, er) =
          io_Copy (header_MultiReader_Read C) n (dst @ take n hdr) (drop n hdr, er)"
      by (subst io_Copy.simps) (simp add: step)
    also have "\<dots> = io_Copy (header_MultiReader_Read C) n ((dst @ take n hdr) @ drop n hdr) ([], er)"
      using False less.prems by (intro less.hyps) simp_all
    finally show ?thesis by simp
  qed
qed

lemma er_copy:
  assumes "0 < n" "0 < B" "length base = NonceSize"
  shows "io_Copy (header_MultiReader_Read C) n dst
           ([], \<lparr>er_reader = bytes_NewReader d, er_cipher = key, er_baseNonce = base,
                 er_counter = ctr, er_buffer = B, er_encrypted = [], er_eof = False\<rparr>) =
         Some (dst @ sealed_chunks C key base B ctr d, None)"
proof (induction "length d" arbitrary: d dst ctr rule: less_induct)
  case less
  let ?er = "\<lparr>er_reader = bytes_NewReader d, er_cipher = key, er_baseNonce = base,
               er_counter = ctr, er_buffer = B, er_encrypted = [], er_eof = False\<rparr>"
  show ?case
  proof (cases "d = []")
    case True
    have "header_MultiReader_Read C ([], ?er) n = (([], Some EOF), ([], ?er\<lparr>er_eof := True\<rparr>))"
      using True assms
      by (simp add: header_MultiReader_Read_def EncryptReader_Read_def reader_Read_bytes_NewReader)
    then have "io_Copy (header_MultiReader_Read C) n dst ([], ?er) = Some (dst, None)"
      by (subst io_Copy.simps) simp
    with True show ?thesis by (simp add: sealed_chunks.simps)
  next
    case False
    let ?enc = "gcm_Seal C key (er_chunkNonce base ctr) (take B d)"
    let ?er' = "\<lparr>er_reader = bytes_NewReader (drop B d), er_cipher = key, er_baseNonce = base,
               er_counter = ctr + 1, er_buffer = B, er_encrypted = drop n ?enc, er_eof = False\<rparr>"
    have nz: "take B d \<noteq> []" using False assms by simp
    have step: "header_MultiReader_Read C ([], ?er) n = ((take n ?enc, None), ([], ?er'))"
      using False assms nz
      by (simp add: header_MultiReader_Read_def EncryptReader_Read_def reader_Read_bytes_NewReader Let_def)
    have "io_Copy (header_MultiReader_Read C) n dst ([], ?er) =
          io_Copy (header_MultiReader_Read C) n (dst @ take n ?enc) ([], ?er')"
      by (subst io_Copy.simps) (simp add: step)
    also have "\<dots> = io_Copy (header_MultiReader_Read C) n ((dst @ take n ?enc) @ drop n ?enc)
                       ([], ?er'\<lparr>er_encrypted := []\<rparr>)"
      using assms by (intro er_drain) simp_all
    also have "\<dots> = Some (((dst @ take n ?enc) @ drop n ?enc) @ sealed_chunks C key base B (ctr + 1) (drop B d), None)"
      using less.hyps[of "drop B d" "(dst @ take n ?enc) @ drop n ?enc" "ctr + 1"] False assms by simp
    finally show ?thesis
      using False assms by (subst sealed_chunks.simps) simp
  qed
qed

lemma dr_drain:
  "0 < n \<Longrightarrow> dr_decrypted dr = pend \<Longrightarrow>
   io_Copy (DecryptReader_Read C) n dst dr =
   io_Copy (DecryptReader_Read C) n (dst @ pend) (dr\<lparr>dr_decrypted := []\<rparr>)"
proof (induction "length pend" arbitrary: pend dst dr rule: less_induct)
  case less
  show ?case
  proof (cases "pend = []")
    case True
    with less.prems have "dr\<lparr>dr_decrypted := []\<rparr> = dr" by (cases dr) simp
    with True show ?thesis by simp
  next
    case False
    let ?dr' = "dr\<lparr>dr_decrypted := drop n pend\<rparr>"
    have step: "DecryptReader_Read C dr n = ((take n pend, None), ?dr')"
      using False less.prems by (simp add: DecryptReader_Read_def)
    have "io_Copy (DecryptReader_Read C) n dst dr =
          io_Copy (DecryptReader_Read C) n (dst @ take n pend) ?dr'"
      by (subst io_Copy.simps) (simp add: step)
    also have "\<dots> = io_Copy (DecryptReader_Read C) n ((dst @ take n pend) @ drop n pend)
                      (?dr'\<lparr>dr_decrypted := []\<rparr>)"
      using False less.prems by (intro less.hyps) simp_all
    finally show ?thesis by simp
  qed
qed

lemma reader_Read_sealed:
  assumes "S \<noteq> []" "length S \<le> cap" "rest \<noteq> [] \<longrightarrow> length S = cap"
  shows "reader_Read (bytes_NewReader (S @ rest)) cap = ((S, None), bytes_NewReader rest)"
  using assms by (cases "rest = []") (auto simp: bytes_NewReader_def)

lemma sealed_chunks_Nil [simp]: "sealed_chunks C key base B ctr [] = []"
  by (simp add: sealed_chunks.simps)

lemma sealed_chunks_eq_Nil:
  "gcm_contract C \<Longrightarrow> length key = KeySize \<Longrightarrow> length base = NonceSize \<Longrightarrow> 0 < B \<Longrightarrow>
   sealed_chunks C key base B ctr d = [] \<longleftrightarrow> d = []"
proof
  assume c: "gcm_contract C" and B: "0 < B" and e: "sealed_chunks C key base B ctr d = []"
    and k: "length key = KeySize" and b: "length base = NonceSize"
  show "d = []"
  proof (rule ccontr)
    assume "d \<noteq> []"
    with B e have "gcm_Seal C key (er_chunkNonce base ctr) (take B d) = []"
      by (subst (asm) sealed_chunks.simps) simp
    then have "length (gcm_Seal C key (er_chunkNonce base ctr) (take B d)) = 0" by simp
    with c k b show False by (simp add: gcm_contract_def)
  qed
qed simp

lemma dr_copy:
  assumes c: "gcm_contract C" and n: "0 < n" and B: "0 < B"
    and k: "length key = KeySize" and b: "length base = NonceSize"
  shows "io_Copy (DecryptReader_Read C) n dst
           \<lparr>dr_reader = bytes_NewReader (sealed_chunks C key base B ctr d), dr_cipher = key,
            dr_baseNonce = base, dr_counter = ctr, dr_buffer = B + gcm_Overhead C,
            dr_decrypted = [], dr_eof = False\<rparr> =
         Some (dst @ d, None)"
proof (induction "length d" arbitrary: d dst ctr rule: less_induct)
  case less
  let ?dr = "\<lparr>dr_reader = bytes_NewReader (sealed_chunks C key base B ctr d), dr_cipher = key,
            dr_baseNonce = base, dr_counter = ctr, dr_buffer = B + gcm_Overhead C,
            dr_decrypted = [], dr_eof = False\<rparr>"
  show ?case
  proof (cases "d = []")
    case True
    have "DecryptReader_Read C ?dr n = (([], Some EOF), ?dr\<lparr>dr_reader := [], dr_eof := True\<rparr>)"
      using True by (simp add: DecryptReader_Read_def bytes_NewReader_def)
    then have "io_Copy (DecryptReader_Read C) n dst ?dr = Some (dst, None)"
      by (subst io_Copy.simps) simp
    with True show ?thesis by simp
  next
    case False
    let ?S = "gcm_Seal C key (er_chunkNonce base ctr) (take B d)"
    let ?rest = "sealed_chunks C key base B (ctr + 1) (drop B d)"
    let ?dr' = "\<lparr>dr_reader = bytes_NewReader ?rest, dr_cipher = key,
            dr_baseNonce = base, dr_counter = ctr + 1, dr_buffer = B + gcm_Overhead C,
            dr_decrypted = drop n (take B d), dr_eof = False\<rparr>"
    have sc: "sealed_chunks C key base B ctr d = ?S @ ?rest"
      using False B by (subst sealed_chunks.simps) simp
    have lenS: "length ?S = min (length d) B + gcm_Overhead C"
      using c k b by (simp add: gcm_contract_def)
    have ov: "gcm_Overhead C = 16" using c by (simp add: gcm_contract_def)
    have Snz: "?S \<noteq> []" using lenS ov by auto
    have full: "?rest \<noteq> [] \<longrightarrow> length ?S = B + gcm_Overhead C"
    proof
      assume "?rest \<noteq> []"
      then have "drop B d \<noteq> []" by auto
      then have "B < length d" by simp
      with lenS show "length ?S = B + gcm_Overhead C" by simp
    qed
    have rd: "reader_Read (bytes_NewReader (?S @ ?rest)) (B + gcm_Overhead C) =
              ((?S, None), bytes_NewReader ?rest)"
      using Snz lenS full by (intro reader_Read_sealed) simp_all
    have op: "gcm_Open C key (er_chunkNonce base ctr) ?S = Some (take B d)"
      using c k b by (simp add: gcm_contract_def)
    have step: "DecryptReader_Read C ?dr n = ((take n (take B d), None), ?dr')"
      using Snz b by (simp add: DecryptReader_Read_def sc rd op Let_def dr_chunkNonce_eq)
    have "io_Copy (DecryptReader_Read C) n dst ?dr =
          io_Copy (DecryptReader_Read C) n (dst @ take n (take B d)) ?dr'"
      by (subst io_Copy.simps) (simp add: step)
    also have "\<dots> = io_Copy (DecryptReader_Read C) n ((dst @ take n (take B d)) @ drop n (take B d))
                       (?dr'\<lparr>dr_decrypted := []\<rparr>)"
      using n by (intro dr_drain) simp_all
    also have "\<dots> = Some (((dst @ take n (take B d)) @ drop n (take B d)) @ drop B d, None)"
      using less.hyps[of "drop B d" "(dst @ take n (take B d)) @ drop n (take B d)" "ctr + 1"] False B
      by simp
    finally have fin: "io_Copy (DecryptReader_Read C) n dst ?dr =
        Some (((dst @ take n (take B d)) @ drop n (take B d)) @ drop B d, None)" .
    have "((dst @ take n (take B d)) @ drop n (take B d)) @ drop B d = dst @ d"
      by (simp only: append_assoc append_take_drop_id)
    with fin show ?thesis by (simp only:)
  qed
qed

lemma DeriveKey_length: "gcm_contract C \<Longrightarrow> length (DeriveKey C pw salt) = KeySize"
  by (simp add: gcm_contract_def DeriveKey_def)

lemma aes_NewCipher_DeriveKey:
  "gcm_contract C \<Longrightarrow> aes_NewCipher (DeriveKey C pw salt) = Inr (DeriveKey C pw salt)"
  by (simp add: aes_NewCipher_def DeriveKey_length KeySize_def)

lemma NewEncryptReader_ok:
  assumes "gcm_contract C" "44 \<le> length (reader_data rnd)"
  shows "NewEncryptReader C rnd r pw =
     (Inr (\<lparr>er_reader = r, er_cipher = DeriveKey C pw (take 32 (reader_data rnd)),
            er_baseNonce = take 12 (drop 32 (reader_data rnd)), er_counter = 0,
            er_buffer = 65536, er_encrypted = [], er_eof = False\<rparr>,
           \<lparr>Salt = take 32 (reader_data rnd), Nonce = take 12 (drop 32 (reader_data rnd))\<rparr>),
      reader_skip 12 (reader_skip 32 rnd))"
proof -
  have s: "GenerateSalt rnd = (Inr (take 32 (reader_data rnd)), reader_skip 32 rnd)"
    using assms by (simp add: GenerateSalt_def SaltSize_def io_ReadFull_enough)
  have d: "reader_data (reader_skip 32 rnd) = drop 32 (reader_data rnd)"
    using assms by (simp add: reader_data_skip)
  have n: "GenerateNonce (reader_skip 32 rnd) =
           (Inr (take 12 (drop 32 (reader_data rnd))), reader_skip 12 (reader_skip 32 rnd))"
    using assms d by (simp add: GenerateNonce_def NonceSize_def io_ReadFull_enough)
  show ?thesis
    using assms(1) by (simp add: NewEncryptReader_def s n aes_NewCipher_DeriveKey)
qed

lemma encrypt_stream_ok:
  assumes "gcm_contract C" "44 \<le> length (reader_data rnd)" "0 < n"
  shows "encrypt_stream C rnd pw (bytes_NewReader data) n =
     Some (Inr (magic @ [1] @ take 32 (reader_data rnd) @ take 12 (drop 32 (reader_data rnd)) @
                sealed_chunks C (DeriveKey C pw (take 32 (reader_data rnd)))
                  (take 12 (drop 32 (reader_data rnd))) 65536 0 data))"
proof -
  let ?salt = "take 32 (reader_data rnd)"
  let ?nonce = "take 12 (drop 32 (reader_data rnd))"
  let ?er = "\<lparr>er_reader = bytes_NewReader data, er_cipher = DeriveKey C pw ?salt,
            er_baseNonce = ?nonce, er_counter = 0,
            er_buffer = 65536, er_encrypted = [], er_eof = False\<rparr>"
  let ?hdr = "magic @ [1] @ ?salt @ ?nonce"
  have "io_Copy (header_MultiReader_Read C) n [] (?hdr, ?er) =
        io_Copy (header_MultiReader_Read C) n ([] @ ?hdr) ([], ?er)"
    using assms(3) by (rule header_drain)
  also have "\<dots> = Some (([] @ ?hdr) @ sealed_chunks C (DeriveKey C pw ?salt) ?nonce 65536 0 data, None)"
    using assms(2,3) by (intro er_copy) (simp_all add: NonceSize_def)
  finally have cp: "io_Copy (header_MultiReader_Read C) n [] (?hdr, ?er) =
        Some (?hdr @ sealed_chunks C (DeriveKey C pw ?salt) ?nonce 65536 0 data, None)"
    by simp
  show ?thesis
    using cp by (simp add: encrypt_stream_def NewEncryptReader_ok[OF assms(1,2)]
        WriteEncryptionHeader_bytes_Buffer)
qed

lemma decrypt_stream_ok:
  assumes "gcm_contract C" "0 < m" "length salt = 32" "length nonce = 12"
  shows "decrypt_stream C pw
           (bytes_NewReader (magic @ [1] @ salt @ nonce @
              sealed_chunks C (DeriveKey C pw salt) nonce 65536 0 data)) m =
         Some (Inr data)"
proof -
  let ?body = "sealed_chunks C (DeriveKey C pw salt) nonce 65536 0 data"
  have h: "ReadEncryptionHeader (bytes_NewReader (magic @ [1] @ salt @ nonce @ ?body)) =
           (Inr \<lparr>Salt = salt, Nonce = nonce\<rparr>, bytes_NewReader ?body)"
    using assms(3,4) by (rule ReadEncryptionHeader_bytes_NewReader)
  have cp: "io_Copy (DecryptReader_Read C) m []
           \<lparr>dr_reader = bytes_NewReader ?body, dr_cipher = DeriveKey C pw salt,
            dr_baseNonce = nonce, dr_counter = 0, dr_buffer = 65536 + gcm_Overhead C,
            dr_decrypted = [], dr_eof = False\<rparr> = Some ([] @ data, None)"
    using assms(1,2,4) by (intro dr_copy) (simp_all add: DeriveKey_length NonceSize_def)
  show ?thesis
    unfolding decrypt_stream_def h
    using cp by (simp add: NewDecryptReader_def aes_NewCipher_DeriveKey[OF assms(1)])
qed

lemma ref_crypto_contract: "gcm_contract ref_crypto"
  by (auto simp: gcm_contract_def ref_crypto_def ref_tag_def min_def)

text \<open>
  The codec alone. For every plaintext and every password, with the library behaving as
  \<open>gcm_contract\<close> says and the random source delivering the 44 bytes of salt and nonce:
  encrypting the plaintext as the backup does (header, then the output of the encrypting
  reader over the plaintext file) gives a stream, and a decrypting reader that reads that
  stream as one byte sequence, after the header, gives back the plaintext. Each \<^verbatim>\<open>Read\<close>
  then fills the buffer it is given while bytes remain, which is what keeps the chunks
  whole. The copy buffers \<open>n\<close> and \<open>m\<close> are arbitrary.
\<close>

lemma codec_round_trip:
  "gcm_contract C \<Longrightarrow> 44 \<le> length (reader_data rnd) \<Longrightarrow> 0 < n \<Longrightarrow> 0 < m \<Longrightarrow>
   \<exists>ct. encrypt_stream C rnd password (bytes_NewReader data) n = Some (Inr ct) \<and>
        decrypt_stream C password (bytes_NewReader ct) m = Some (Inr data)"
proof -
  assume c: "gcm_contract C" and r: "44 \<le> length (reader_data rnd)" and n: "0 < n" and m: "0 < m"
  let ?salt = "take 32 (reader_data rnd)"
  let ?nonce = "take 12 (drop 32 (reader_data rnd))"
  have ls: "length ?salt = 32" and ln: "length ?nonce = 12" using r by simp_all
  show ?thesis
    using encrypt_stream_ok[OF c r n, of password data]
      decrypt_stream_ok[OF c m ls ln, of password data]
    by simp
qed

lemmas codec_eval =
  encrypt_stream_def decrypt_stream_def NewEncryptReader_def NewDecryptReader_def
  GenerateSalt_def GenerateNonce_def io_ReadFull_def io_ReadAtLeast_loop.simps
  bytes_NewReader_def SaltSize_def NonceSize_def KeySize_def Iterations_def
  aes_NewCipher_def DeriveKey_def ref_crypto_def ref_tag_def
  WriteEncryptionHeader_def ReadEncryptionHeader_def writer_Write_def bytes_Buffer_def
  header_MultiReader_Read_def EncryptReader_Read_def DecryptReader_Read_def
  er_chunkNonce_def dr_chunkNonce_def er_nonce_loop.simps dr_nonce_loop.simps
  io_Copy.simps magic_def bytes_of_string_def Let_def

lemma codec_round_trip_example:
  "encrypt_stream ref_crypto (bytes_NewReader demo_rand) ''pw'' (bytes_NewReader [1, 2, 3]) 100 =
     Some (Inr demo_stream) \<and>
   decrypt_stream ref_crypto ''pw'' (bytes_NewReader demo_stream) 100 = Some (Inr [1, 2, 3])"
proof -
  have r: "44 \<le> length (reader_data (bytes_NewReader demo_rand))"
    by (simp add: demo_rand_def)
  have e: "encrypt_stream ref_crypto (bytes_NewReader demo_rand) ''pw'' (bytes_NewReader [1, 2, 3]) 100 =
     Some (Inr demo_stream)"
    by (simp add: codec_eval demo_rand_def demo_stream_def)
  from codec_round_trip[OF ref_crypto_contract r, of 100 100 "''pw''" "[1, 2, 3]"] e
  show ?thesis by simp
qed

lemma DecryptReader_Read_chunk:
  assumes "length (dr_baseNonce dr) = NonceSize" "dr_decrypted dr = []" "\<not> dr_eof dr"
    "reader_Read (dr_reader dr) (dr_buffer dr) = ((chunk, None), r')" "chunk \<noteq> []"
  shows "DecryptReader_Read C dr p =
     (case gcm_Open C (dr_cipher dr) (dr_chunkNonce (dr_baseNonce dr) (dr_counter dr)) chunk of
        None \<Rightarrow> (([], Some (Wrapped ''decryption failed'' ErrOpen)), dr\<lparr>dr_reader := r'\<rparr>)
      | Some pt \<Rightarrow>
          ((take p pt, None),
           dr\<lparr>dr_reader := r', dr_decrypted := drop p pt, dr_counter := dr_counter dr + 1\<rparr>))"
  using assms by (simp add: DecryptReader_Read_def Let_def dr_chunkNonce_eq)

lemma io_Copy_decrypt_fails:
  assumes "length (dr_baseNonce dr) = NonceSize" "dr_decrypted dr = []" "\<not> dr_eof dr"
    "reader_Read (dr_reader dr) (dr_buffer dr) = ((chunk, None), r')" "chunk \<noteq> []"
    "gcm_Open C (dr_cipher dr) (dr_chunkNonce (dr_baseNonce dr) (dr_counter dr)) chunk = None"
  shows "io_Copy (DecryptReader_Read C) p dst dr =
           Some (dst, Some (Wrapped ''decryption failed'' ErrOpen))"
  using DecryptReader_Read_chunk[OF assms(1-5), of C p] assms(6)
  by (subst io_Copy.simps) simp




subsection \<open>What the stream does not carry\<close>

text \<open>
  The stream holds no length and no mark of its last chunk. A stream of more than one
  chunk that is cut after its first chunk is again a stream the backup side could have
  written, for the first 64 KiB of the plaintext: it decrypts to them without an error.
\<close>

lemma decrypt_stream_cut_at_chunk:
  assumes c: "gcm_contract C" and m: "0 < m" and ls: "length salt = 32" and ln: "length nonce = 12"
    and big: "65536 < length data"
    and ct: "ct = magic @ [1] @ salt @ nonce @ sealed_chunks C (DeriveKey C pw salt) nonce 65536 0 data"
  shows "strict_prefix (take 65605 ct) ct \<and>
         decrypt_stream C pw (bytes_NewReader (take 65605 ct)) m = Some (Inr (take 65536 data))"
proof -
  let ?key = "DeriveKey C pw salt"
  let ?S = "gcm_Seal C ?key (er_chunkNonce nonce 0) (take 65536 data)"
  let ?rest = "sealed_chunks C ?key nonce 65536 (0 + 1) (drop 65536 data)"
  have ov: "gcm_Overhead C = 16" using c by (simp add: gcm_contract_def)
  have lk: "length ?key = KeySize" by (rule DeriveKey_length[OF c])
  have lnz: "length nonce = NonceSize" using ln by (simp add: NonceSize_def)
  have dnz: "data \<noteq> []" using big by auto
  have body: "sealed_chunks C ?key nonce 65536 0 data = ?S @ ?rest"
    using dnz by (subst sealed_chunks.simps) simp
  have lS: "length ?S = 65552"
    using c lk lnz ov big by (simp add: gcm_contract_def)
  have rnz: "?rest \<noteq> []"
    using sealed_chunks_eq_Nil[OF c lk lnz, of 65536 "0 + 1" "drop 65536 data"] big by simp
  have t1: "take 65536 data \<noteq> []" using big by auto
  have body': "sealed_chunks C ?key nonce 65536 0 (take 65536 data) = ?S"
    using t1 by (subst sealed_chunks.simps) simp
  define H where "H = magic @ [1] @ salt @ nonce"
  define S where "S = ?S"
  define R where "R = ?rest"
  have lH: "length H = 53" using ls ln by (simp add: H_def)
  have lS': "length S = 65552" using lS by (simp add: S_def)
  have Rnz: "R \<noteq> []" using rnz by (simp add: R_def)
  have ctH: "ct = H @ S @ R" unfolding ct body H_def S_def R_def by simp
  have tk: "take 65605 ct = H @ S" unfolding ctH using lH lS' by simp
  have sp: "strict_prefix (take 65605 ct) ct"
    unfolding tk unfolding ctH using Rnz by (simp add: strict_prefix_def)
  have "take 65605 ct = magic @ [1] @ salt @ nonce @
          sealed_chunks C ?key nonce 65536 0 (take 65536 data)"
    unfolding tk body' H_def S_def by simp
  then have "decrypt_stream C pw (bytes_NewReader (take 65605 ct)) m = Some (Inr (take 65536 data))"
    using decrypt_stream_ok[OF c m ls ln, of pw "take 65536 data"] by simp
  with sp show ?thesis by simp
qed

section \<open>Properties of the snapshot versioning layer\<close>

lemmas storage_eval =
  demo_os_def demo_backup_def demo_meta_def StoreSnapshot_def LocalStorage_def LocalStorage_Store_def
  LocalStorage_List_def LocalStorage_Retrieve_def LocalStorage_Delete_def
  os_Create_def os_Remove_def os_Open_def os_ReadDir_def json_Decode_def json_Encode_def
  file_Copy_def file_reader_def bytes_NewReader_def cleanSnapshotName_def strings_TrimSuffix_def
  strings_ReplaceAll_def strings_SplitN2_def ListVersions_def GetLatestVersion_def GetSnapshot_def
  DeleteSnapshot_def Let_def suffix_to_prefix

lemma ListVersions_loop_eq:
  "ListVersions_loop name backups versions =
     versions @ map version_info (filter (\<lambda>m. prefix (name @ ''@'') (md_ID m)) backups)"
proof (induction backups arbitrary: versions)
  case Nil
  then show ?case by simp
next
  case (Cons backup backups)
  show ?case
  proof (cases "prefix (name @ ''@'') (md_ID backup)")
    case True
    then have "CHR ''@'' \<in> set (md_ID backup)" by (auto simp: prefix_def)
    then have "strings_SplitN2 (md_ID backup) CHR ''@'' =
        [takeWhile (\<lambda>c. c \<noteq> CHR ''@'') (md_ID backup), tl (dropWhile (\<lambda>c. c \<noteq> CHR ''@'') (md_ID backup))]"
      by (simp add: strings_SplitN2_def)
    with True Cons.IH show ?thesis by (simp add: version_info_def Let_def)
  next
    case False
    with Cons.IH show ?thesis by simp
  qed
qed

lemma ListVersions_eq:
  "ListVersions B st name =
     (case be_List B st of
        Inl e \<Rightarrow> Inl e
      | Inr backups \<Rightarrow>
          Inr (map version_info
                 (filter (\<lambda>m. prefix (cleanSnapshotName name @ ''@'') (md_ID m)) backups)))"
  by (simp add: ListVersions_def ListVersions_loop_eq Let_def split: sum.splits)

lemma sorted_map_filter:
  "sorted (map f xs) \<Longrightarrow> sorted (map f (filter P xs))"
  by (induction xs) (auto)

subsection \<open>The listing order of the filesystem backend\<close>

text \<open>
  \<^verbatim>\<open>os.ReadDir\<close> returns the entries sorted by file name, and \<^verbatim>\<open>Store\<close> names the
  metadata file after the backup's id. So, in a directory whose metadata files hold the id
  they are named after, \<^verbatim>\<open>List\<close> returns the metadata in the order of the ids, and
  \<^verbatim>\<open>ListVersions\<close> returns the versions of a name in the order of their version tokens
  (the tokens \<^verbatim>\<open>StoreSnapshot\<close> makes have 15 characters). The token is the local wall-clock
  time of the call: token order is creation order as long as that clock does not step back.
\<close>

lemma append_le_append_same:
  fixes a b :: string
  shows "p @ a \<le> p @ b \<longleftrightarrow> a \<le> b"
  by (induction p) auto

lemma le_append_same_length:
  fixes a b :: string
  shows "length a = length b \<Longrightarrow> a @ s \<le> b @ s \<longleftrightarrow> a \<le> b"
  by (induction a b rule: list_induct2) auto

lemma LocalStorage_List_loop_names:
  assumes dist: "distinct (map fst d)"
    and wf: "\<forall>(n, f) \<in> set d. \<forall>m. f = Json m \<longrightarrow> n = md_ID m @ ''.json''"
  shows "set entries \<subseteq> set d \<Longrightarrow> sorted (map fst entries) \<Longrightarrow>
         \<exists>ms. LocalStorage_List_loop F d entries backups = backups @ ms \<and>
              sorted (map (\<lambda>m. md_ID m @ ''.json'') ms) \<and>
              (\<forall>m \<in> set ms. \<exists>e \<in> set entries. md_ID m @ ''.json'' = fst e)"
proof (induction entries arbitrary: backups)
  case Nil
  show ?case by simp
next
  case (Cons entry entries)
  obtain n f where e: "entry = (n, f)" by (cases entry)
  from Cons.prems e have mem: "(n, f) \<in> set d" by simp
  with dist have mo: "map_of d n = Some f" by simp
  from Cons.prems have sub: "set entries \<subseteq> set d" and srt: "sorted (map fst entries)"
    and low: "\<forall>x \<in> set entries. n \<le> fst x" using e by auto
  show ?case
  proof (cases "suffix ''.json'' n \<and> \<not> open_fails F n \<and> (\<exists>m. f = Json m)")
    case True
    then obtain m where m: "f = Json m" by blast
    with wf mem have key: "md_ID m @ ''.json'' = n" by auto
    from Cons.IH[OF sub srt, of "backups @ [m]"] obtain ms where
      ms: "LocalStorage_List_loop F d entries (backups @ [m]) = (backups @ [m]) @ ms"
        "sorted (map (\<lambda>m. md_ID m @ ''.json'') ms)"
        "\<forall>m \<in> set ms. \<exists>e \<in> set entries. md_ID m @ ''.json'' = fst e" by blast
    have "LocalStorage_List_loop F d (entry # entries) backups = backups @ (m # ms)"
      using True m mo ms(1) e by (simp add: os_Open_def json_Decode_def)
    moreover have "md_ID m @ ''.json'' \<le> md_ID x @ ''.json''" if "x \<in> set ms" for x
    proof -
      from ms(3) that obtain e where "e \<in> set entries" "md_ID x @ ''.json'' = fst e" by blast
      with low key show ?thesis by simp
    qed
    then have "sorted (map (\<lambda>m. md_ID m @ ''.json'') (m # ms))"
      using ms(2) by auto
    moreover note this
    moreover have "\<forall>x \<in> set (m # ms). \<exists>e \<in> set (entry # entries). md_ID x @ ''.json'' = fst e"
      using ms(3) key e by auto
    ultimately show ?thesis by blast
  next
    case False
    from Cons.IH[OF sub srt, of backups] obtain ms where
      ms: "LocalStorage_List_loop F d entries backups = backups @ ms"
        "sorted (map (\<lambda>m. md_ID m @ ''.json'') ms)"
        "\<forall>m \<in> set ms. \<exists>e \<in> set entries. md_ID m @ ''.json'' = fst e" by blast
    have "LocalStorage_List_loop F d (entry # entries) backups = backups @ ms"
      using False mo ms(1) e
      by (auto simp: os_Open_def json_Decode_def split: os_file.splits)
    moreover have "\<forall>x \<in> set ms. \<exists>e \<in> set (entry # entries). md_ID x @ ''.json'' = fst e"
      using ms(3) by auto
    ultimately show ?thesis using ms(2) by blast
  qed
qed

lemma LocalStorage_List_sorted:
  assumes "\<not> readdir_fails F" and dist: "distinct (map fst d)"
    and wf: "\<forall>(n, f) \<in> set d. \<forall>m. f = Json m \<longrightarrow> n = md_ID m @ ''.json''"
  shows "\<exists>backups. be_List (LocalStorage F) d = Inr backups \<and>
           sorted (map (\<lambda>m. md_ID m @ ''.json'') backups)"
proof -
  have "set (sort_key fst d) \<subseteq> set d" "sorted (map fst (sort_key fst d))" by simp_all
  from LocalStorage_List_loop_names[OF dist wf this, of F "[]"] assms(1)
  show ?thesis
    by (auto simp: LocalStorage_def LocalStorage_List_def os_ReadDir_def)
qed

lemma version_token:
  assumes "prefix (name @ ''@'') ident"
  shows "\<exists>rest. ident = name @ ''@'' @ rest \<and>
           tl (dropWhile (\<lambda>c. c \<noteq> CHR ''@'') ident) =
             tl (dropWhile (\<lambda>c. c \<noteq> CHR ''@'') (name @ ''@'')) @ rest"
proof -
  from assms obtain rest where r: "ident = (name @ ''@'') @ rest" by (auto simp: prefix_def)
  have "dropWhile (\<lambda>c. c \<noteq> CHR ''@'') ((name @ ''@'') @ rest) =
        dropWhile (\<lambda>c. c \<noteq> CHR ''@'') (name @ ''@'') @ rest"
    by (rule dropWhile_append1[of "CHR ''@''"]) simp_all
  moreover have "dropWhile (\<lambda>c. c \<noteq> CHR ''@'') (name @ ''@'') \<noteq> []"
    by (simp add: dropWhile_eq_Nil_conv)
  ultimately show ?thesis using r by (intro exI[of _ rest]) simp
qed

lemma ListVersions_LocalStorage_by_token:
  assumes rd: "\<not> readdir_fails F" and dist: "distinct (map fst d)"
    and wf: "\<forall>(n, f) \<in> set d. \<forall>m. f = Json m \<longrightarrow> n = md_ID m @ ''.json''"
  shows "\<exists>versions. ListVersions (LocalStorage F) d name = Inr versions \<and>
           sorted (map (\<lambda>v. vi_Version v @ ''.json'') versions) \<and>
           ((\<forall>v \<in> set versions. length (vi_Version v) = 15) \<longrightarrow> sorted (map vi_Version versions))"
proof -
  let ?P = "cleanSnapshotName name @ ''@''"
  let ?q = "tl (dropWhile (\<lambda>c. c \<noteq> CHR ''@'') ?P)"
  from LocalStorage_List_sorted[OF rd dist wf] obtain backups where
    l: "be_List (LocalStorage F) d = Inr backups" and
    s: "sorted (map (\<lambda>m. md_ID m @ ''.json'') backups)" by blast
  let ?ms = "filter (\<lambda>m. prefix ?P (md_ID m)) backups"
  let ?versions = "map version_info ?ms"
  have v: "ListVersions (LocalStorage F) d name = Inr ?versions"
    using l by (simp add: ListVersions_eq)
  have s1: "sorted_wrt (\<lambda>a b. md_ID a @ ''.json'' \<le> md_ID b @ ''.json'') ?ms"
    using sorted_map_filter[OF s, of "\<lambda>m. prefix ?P (md_ID m)"] by (simp add: sorted_map)
  have s2: "sorted_wrt (\<lambda>a b. vi_Version (version_info a) @ ''.json'' \<le>
                              vi_Version (version_info b) @ ''.json'') ?ms"
  proof (rule sorted_wrt_mono_rel[OF _ s1])
    fix a b
    assume "a \<in> set ?ms" "b \<in> set ?ms" and le: "md_ID a @ ''.json'' \<le> md_ID b @ ''.json''"
    then have pa: "prefix ?P (md_ID a)" and pb: "prefix ?P (md_ID b)" by simp_all
    from version_token[OF pa] obtain ra where
      ra: "md_ID a = cleanSnapshotName name @ ''@'' @ ra"
        "vi_Version (version_info a) = ?q @ ra" by (auto simp: version_info_def)
    from version_token[OF pb] obtain rb where
      rb: "md_ID b = cleanSnapshotName name @ ''@'' @ rb"
        "vi_Version (version_info b) = ?q @ rb" by (auto simp: version_info_def)
    from le have "?P @ (ra @ ''.json'') \<le> ?P @ (rb @ ''.json'')"
      unfolding ra(1) rb(1) by simp
    then have "ra @ ''.json'' \<le> rb @ ''.json''" by (simp only: append_le_append_same)
    then have "?q @ (ra @ ''.json'') \<le> ?q @ (rb @ ''.json'')" by (simp only: append_le_append_same)
    then show "vi_Version (version_info a) @ ''.json'' \<le> vi_Version (version_info b) @ ''.json''"
      unfolding ra(2) rb(2) by simp
  qed
  then have s3: "sorted (map (\<lambda>v. vi_Version v @ ''.json'') ?versions)"
    by (simp add: sorted_map sorted_wrt_map)
  have s4: "sorted (map vi_Version ?versions)" if len: "\<forall>v \<in> set ?versions. length (vi_Version v) = 15"
  proof -
    have "sorted_wrt (\<lambda>a b. vi_Version a \<le> vi_Version b) ?versions"
    proof (rule sorted_wrt_mono_rel[OF _ s3[unfolded sorted_map]])
      fix a b
      assume "a \<in> set ?versions" "b \<in> set ?versions"
        and le: "vi_Version a @ ''.json'' \<le> vi_Version b @ ''.json''"
      with len have "length (vi_Version a) = length (vi_Version b)" by auto
      from le_append_same_length[OF this] le show "vi_Version a \<le> vi_Version b" by simp
    qed
    then show ?thesis by (simp add: sorted_map sorted_wrt_map)
  qed
  from v s3 s4 show ?thesis by blast
qed

text \<open>
  Claim C9, as amended. \<^verbatim>\<open>ListVersions\<close> returns the versions of the name in the order in
  which the backend's \<^verbatim>\<open>List\<close> returns their metadata, one version for each listed id that
  begins with the cleaned name and the separator; it does not sort. So the versions are
  listed by creation time whenever the backend lists the metadata by creation time. On the
  filesystem backend, in a directory whose metadata files hold the id they are named after,
  the versions are listed in the order of their version tokens followed by \<open>.json\<close> (the
  rest of the file name); that is the order of the tokens themselves when every listed
  token has the 15 characters of the tokens \<^verbatim>\<open>StoreSnapshot\<close> makes.
\<close>

theorem C9_versions_in_listing_order:
  "ListVersions B st name =
     (case be_List B st of
        Inl e \<Rightarrow> Inl e
      | Inr backups \<Rightarrow>
          Inr (map version_info
                 (filter (\<lambda>m. prefix (cleanSnapshotName name @ ''@'') (md_ID m)) backups))) \<and>
   (\<forall>backups versions.
      be_List B st = Inr backups \<and> sorted (map md_CreatedAt backups) \<and>
      ListVersions B st name = Inr versions \<longrightarrow> sorted (map vi_CreatedAt versions)) \<and>
   (\<forall>F d.
      \<not> readdir_fails F \<and> distinct (map fst d) \<and>
      (\<forall>(n, f) \<in> set d. \<forall>m. f = Json m \<longrightarrow> n = md_ID m @ ''.json'') \<longrightarrow>
      (\<exists>versions. ListVersions (LocalStorage F) d name = Inr versions \<and>
         sorted (map (\<lambda>v. vi_Version v @ ''.json'') versions) \<and>
         ((\<forall>v \<in> set versions. length (vi_Version v) = 15) \<longrightarrow> sorted (map vi_Version versions))))"
proof (intro conjI allI impI)
  show "ListVersions B st name =
     (case be_List B st of
        Inl e \<Rightarrow> Inl e
      | Inr backups \<Rightarrow>
          Inr (map version_info
                 (filter (\<lambda>m. prefix (cleanSnapshotName name @ ''@'') (md_ID m)) backups)))"
    by (rule ListVersions_eq)
next
  fix backups versions
  assume a: "be_List B st = Inr backups \<and> sorted (map md_CreatedAt backups) \<and>
      ListVersions B st name = Inr versions"
  then have v: "versions = map version_info
      (filter (\<lambda>m. prefix (cleanSnapshotName name @ ''@'') (md_ID m)) backups)"
    by (auto simp: ListVersions_eq)
  have "map vi_CreatedAt versions =
        map md_CreatedAt (filter (\<lambda>m. prefix (cleanSnapshotName name @ ''@'') (md_ID m)) backups)"
    unfolding v by (simp add: version_info_def comp_def)
  with a show "sorted (map vi_CreatedAt versions)"
    by (simp add: sorted_map_filter)
next
  fix F :: os_env and d :: dir
  assume a: "\<not> readdir_fails F \<and> distinct (map fst d) \<and>
      (\<forall>(n, f) \<in> set d. \<forall>m. f = Json m \<longrightarrow> n = md_ID m @ ''.json'')"
  then have "\<not> readdir_fails F" "distinct (map fst d)"
    "\<forall>(n, f) \<in> set d. \<forall>m. f = Json m \<longrightarrow> n = md_ID m @ ''.json''" by simp_all
  from ListVersions_LocalStorage_by_token[OF this, of name]
  show "\<exists>versions. ListVersions (LocalStorage F) d name = Inr versions \<and>
         sorted (map (\<lambda>v. vi_Version v @ ''.json'') versions) \<and>
         ((\<forall>v \<in> set versions. length (vi_Version v) = 15) \<longrightarrow> sorted (map vi_Version versions))"
    by blast
qed

theorem C9_versions_in_listing_order_witness:
  "be_List (LocalStorage demo_os) demo_dir4 =
     Inr [demo_meta ''b1'' ''20240101-013000'' 100, demo_meta ''b1'' ''20240101-023000'' 300,
          demo_meta ''b2'' ''20240101-030000'' 350] \<and>
   ListVersions (LocalStorage demo_os) demo_dir4 ''b1'' =
     Inr [\<lparr>vi_Version = ''20240101-013000'', vi_Size = 3, vi_CreatedAt = 100, vi_Description = []\<rparr>,
          \<lparr>vi_Version = ''20240101-023000'', vi_Size = 3, vi_CreatedAt = 300, vi_Description = []\<rparr>] \<and>
   sorted (map vi_CreatedAt
     [\<lparr>vi_Version = ''20240101-013000'', vi_Size = 3, vi_CreatedAt = 100, vi_Description = []\<rparr>,
      \<lparr>vi_Version = ''20240101-023000'', vi_Size = 3, vi_CreatedAt = 300, vi_Description = []\<rparr>]) \<and>
   ListVersions (LocalStorage demo_os) demo_dir3 ''b1'' =
     Inr [\<lparr>vi_Version = ''20240101-011000'', vi_Size = 3, vi_CreatedAt = 200, vi_Description = []\<rparr>,
          \<lparr>vi_Version = ''20240101-013000'', vi_Size = 3, vi_CreatedAt = 100, vi_Description = []\<rparr>,
          \<lparr>vi_Version = ''20240101-023000'', vi_Size = 3, vi_CreatedAt = 300, vi_Description = []\<rparr>] \<and>
   sorted [''20240101-011000'', ''20240101-013000'', ''20240101-023000'']"
proof -
  let ?b4 = "[demo_meta ''b1'' ''20240101-013000'' 100, demo_meta ''b1'' ''20240101-023000'' 300,
          demo_meta ''b2'' ''20240101-030000'' 350]"
  let ?v4 = "[\<lparr>vi_Version = ''20240101-013000'', vi_Size = 3, vi_CreatedAt = 100, vi_Description = []\<rparr>,
          \<lparr>vi_Version = ''20240101-023000'', vi_Size = 3, vi_CreatedAt = 300, vi_Description = []\<rparr>]"
  have l: "be_List (LocalStorage demo_os) demo_dir4 = Inr ?b4"
    by (simp add: demo_dir1_def demo_dir4_def storage_eval)
  have v: "ListVersions (LocalStorage demo_os) demo_dir4 ''b1'' = Inr ?v4"
    using C9_versions_in_listing_order[of "LocalStorage demo_os" demo_dir4 "''b1''", THEN conjunct1]
    by (simp add: l version_info_def demo_meta_def cleanSnapshotName_def strings_TrimSuffix_def
        strings_ReplaceAll_def suffix_to_prefix)
  have s: "sorted (map md_CreatedAt ?b4)" by (simp add: demo_meta_def)
  from C9_versions_in_listing_order[of "LocalStorage demo_os" demo_dir4 "''b1''", THEN conjunct2, THEN conjunct1,
      rule_format, of ?b4 ?v4] l s v
  have c: "sorted (map vi_CreatedAt ?v4)"
    by blast
  have l3: "ListVersions (LocalStorage demo_os) demo_dir3 ''b1'' =
     Inr [\<lparr>vi_Version = ''20240101-011000'', vi_Size = 3, vi_CreatedAt = 200, vi_Description = []\<rparr>,
          \<lparr>vi_Version = ''20240101-013000'', vi_Size = 3, vi_CreatedAt = 100, vi_Description = []\<rparr>,
          \<lparr>vi_Version = ''20240101-023000'', vi_Size = 3, vi_CreatedAt = 300, vi_Description = []\<rparr>]"
    by (simp add: demo_dir1_def demo_dir2_def demo_dir3_def storage_eval)
  have h: "\<not> readdir_fails demo_os \<and> distinct (map fst demo_dir3) \<and>
      (\<forall>(n, f) \<in> set demo_dir3. \<forall>m. f = Json m \<longrightarrow> n = md_ID m @ ''.json'')"
    by (simp add: demo_os_def demo_dir1_def demo_dir2_def demo_dir3_def demo_meta_def)
  from C9_versions_in_listing_order[of "LocalStorage demo_os" demo_dir1 "''b1''", THEN conjunct2, THEN conjunct2,
      rule_format, OF h] l3
  have t: "sorted [''20240101-011000'', ''20240101-013000'', ''20240101-023000'']"
    by simp
  show ?thesis using l v c l3 t by simp
qed

theorem C9_listing_order_counterexample:
  "StoreSnapshot (LocalStorage demo_os) ''20240101-013000'' 100 [] ''b1'' (demo_backup [1]) =
     (None, demo_dir1) \<and>
   StoreSnapshot (LocalStorage demo_os) ''20240101-011000'' 200 demo_dir1 ''b1'' (demo_backup [2]) =
     (None, demo_dir2) \<and>
   StoreSnapshot (LocalStorage demo_os) ''20240101-023000'' 300 demo_dir2 ''b1'' (demo_backup [3]) =
     (None, demo_dir3) \<and>
   ListVersions (LocalStorage demo_os) demo_dir3 ''b1'' =
     Inr [\<lparr>vi_Version = ''20240101-011000'', vi_Size = 3, vi_CreatedAt = 200, vi_Description = []\<rparr>,
          \<lparr>vi_Version = ''20240101-013000'', vi_Size = 3, vi_CreatedAt = 100, vi_Description = []\<rparr>,
          \<lparr>vi_Version = ''20240101-023000'', vi_Size = 3, vi_CreatedAt = 300, vi_Description = []\<rparr>] \<and>
   \<not> sorted [200, 100, 300 :: int] \<and> \<not> sorted (rev [200, 100, 300 :: int])"
proof -
  have s1: "StoreSnapshot (LocalStorage demo_os) ''20240101-013000'' 100 [] ''b1'' (demo_backup [1]) =
     (None, demo_dir1)"
    by (simp add: demo_dir1_def storage_eval)
  have s2: "StoreSnapshot (LocalStorage demo_os) ''20240101-011000'' 200 demo_dir1 ''b1'' (demo_backup [2]) =
     (None, demo_dir2)"
    by (simp add: demo_dir1_def demo_dir2_def storage_eval)
  have s3: "StoreSnapshot (LocalStorage demo_os) ''20240101-023000'' 300 demo_dir2 ''b1'' (demo_backup [3]) =
     (None, demo_dir3)"
    by (simp add: demo_dir1_def demo_dir2_def demo_dir3_def storage_eval)
  have l: "ListVersions (LocalStorage demo_os) demo_dir3 ''b1'' =
     Inr [\<lparr>vi_Version = ''20240101-011000'', vi_Size = 3, vi_CreatedAt = 200, vi_Description = []\<rparr>,
          \<lparr>vi_Version = ''20240101-013000'', vi_Size = 3, vi_CreatedAt = 100, vi_Description = []\<rparr>,
          \<lparr>vi_Version = ''20240101-023000'', vi_Size = 3, vi_CreatedAt = 300, vi_Description = []\<rparr>]"
    by (simp add: demo_dir1_def demo_dir2_def demo_dir3_def storage_eval)
  show ?thesis using s1 s2 s3 l by simp
qed

lemma GetLatestVersion_loop_mem:
  "GetLatestVersion_loop l vs \<in> set (l # vs)"
  by (induction vs arbitrary: l) (auto split: if_splits)

lemma GetLatestVersion_loop_ge_start:
  "vi_CreatedAt l \<le> vi_CreatedAt (GetLatestVersion_loop l vs)"
proof (induction vs arbitrary: l)
  case Nil
  then show ?case by simp
next
  case (Cons v vs)
  have "vi_CreatedAt l \<le> vi_CreatedAt (if vi_CreatedAt v > vi_CreatedAt l then v else l)" by simp
  also have "\<dots> \<le> vi_CreatedAt (GetLatestVersion_loop (if vi_CreatedAt v > vi_CreatedAt l then v else l) vs)"
    by (rule Cons.IH)
  finally show ?case by simp
qed

lemma GetLatestVersion_loop_max:
  "v \<in> set vs \<Longrightarrow> vi_CreatedAt v \<le> vi_CreatedAt (GetLatestVersion_loop l vs)"
proof (induction vs arbitrary: l)
  case Nil
  then show ?case by simp
next
  case (Cons w ws)
  let ?l' = "if vi_CreatedAt w > vi_CreatedAt l then w else l"
  show ?case
  proof (cases "v = w")
    case True
    have "vi_CreatedAt w \<le> vi_CreatedAt ?l'" by simp
    also have "\<dots> \<le> vi_CreatedAt (GetLatestVersion_loop ?l' ws)"
      by (rule GetLatestVersion_loop_ge_start)
    finally show ?thesis using True by simp
  next
    case False
    with Cons.prems have "v \<in> set ws" by simp
    from Cons.IH[OF this, of ?l'] show ?thesis by simp
  qed
qed

lemma vi_CreatedAt_version_info: "vi_CreatedAt (version_info m) = md_CreatedAt m"
  by (simp add: version_info_def)

lemma version_key:
  assumes "CHR ''@'' \<notin> set name" "prefix (name @ ''@'') (md_ID m)"
  shows "name @ ''@'' @ vi_Version (version_info m) = md_ID m"
proof -
  from assms(2) obtain rest where r: "md_ID m = name @ CHR ''@'' # rest"
    by (auto simp: prefix_def)
  have "dropWhile (\<lambda>c. c \<noteq> CHR ''@'') (name @ CHR ''@'' # rest) = CHR ''@'' # rest"
    using assms(1) by (auto simp: dropWhile_append3)
  then show ?thesis by (simp add: version_info_def r)
qed

lemma GetSnapshot_versioned:
  "CHR ''@'' \<in> set (cleanSnapshotName n) \<Longrightarrow>
   GetSnapshot B st n = be_Retrieve B st (cleanSnapshotName n)"
  by (simp add: GetSnapshot_def Let_def)

lemma GetSnapshot_latest:
  assumes nm: "cleanSnapshotName n = name" and stable: "cleanSnapshotName name = name"
    and bare: "CHR ''@'' \<notin> set name" and l: "be_List B st = Inr backups"
    and ne: "filter (\<lambda>m. prefix (name @ ''@'') (md_ID m)) backups \<noteq> []"
  shows "\<exists>m \<in> set (filter (\<lambda>m. prefix (name @ ''@'') (md_ID m)) backups).
           (\<forall>m' \<in> set (filter (\<lambda>m. prefix (name @ ''@'') (md_ID m)) backups).
              md_CreatedAt m' \<le> md_CreatedAt m) \<and>
           GetSnapshot B st n = be_Retrieve B st (md_ID m)"
proof -
  let ?ms = "filter (\<lambda>m. prefix (name @ ''@'') (md_ID m)) backups"
  let ?vs = "map version_info ?ms"
  have lv: "ListVersions B st name = Inr ?vs"
    using l stable by (simp add: ListVersions_eq)
  from ne obtain m0 rest where ms: "?ms = m0 # rest" by (cases ?ms) auto
  let ?latest = "GetLatestVersion_loop (version_info m0) ?vs"
  have glv: "GetLatestVersion B st name = Inr (vi_Version ?latest)"
    using lv ms by (simp add: GetLatestVersion_def)
  have "?latest \<in> set (version_info m0 # ?vs)" by (rule GetLatestVersion_loop_mem)
  then have "?latest \<in> set ?vs" using ms by auto
  then obtain m where m: "m \<in> set ?ms" and lm: "?latest = version_info m" by auto
  have mx: "\<forall>m' \<in> set ?ms. md_CreatedAt m' \<le> md_CreatedAt m"
  proof
    fix m' assume "m' \<in> set ?ms"
    then have "version_info m' \<in> set ?vs" by simp
    from GetLatestVersion_loop_max[OF this, of "version_info m0"]
    have "vi_CreatedAt (version_info m') \<le> vi_CreatedAt (version_info m)"
      unfolding lm .
    then show "md_CreatedAt m' \<le> md_CreatedAt m"
      by (simp only: vi_CreatedAt_version_info)
  qed
  have pm: "prefix (name @ ''@'') (md_ID m)" using m by simp
  have key: "name @ ''@'' @ vi_Version ?latest = md_ID m"
    unfolding lm by (rule version_key[OF bare pm])
  have "GetSnapshot B st n = be_Retrieve B st (md_ID m)"
    using nm bare glv key by (simp add: GetSnapshot_def Let_def)
  with m mx show ?thesis by blast
qed

subsection \<open>Deletion under a name that cleaning leaves unchanged\<close>

text \<open>
  On the filesystem backend, with files that can be removed and metadata files named
  after the id they hold: \<^verbatim>\<open>DeleteSnapshot\<close> of a bare name that has versions removes the
  files of each of them, after which \<^verbatim>\<open>ListVersions\<close> of the name is empty and the files of
  other names are as before; of a bare name without versions it returns "no snapshots
  found" and leaves the directory alone. This is for names on which a second cleaning
  changes nothing.
\<close>

lemma DeleteSnapshot_versioned:
  "CHR ''@'' \<in> set (cleanSnapshotName n) \<Longrightarrow>
   DeleteSnapshot B st n = be_Delete B st (cleanSnapshotName n)"
  by (simp add: DeleteSnapshot_def Let_def)

lemma DeleteSnapshot_no_versions:
  assumes nm: "cleanSnapshotName n = name" and stable: "cleanSnapshotName name = name"
    and bare: "CHR ''@'' \<notin> set name" and l: "be_List B st = Inr backups"
    and none: "filter (\<lambda>m. prefix (name @ ''@'') (md_ID m)) backups = []"
  shows "DeleteSnapshot B st n = (Some (Errorf (''no snapshots found with name '' @ name)), st)"
  using assms by (simp add: DeleteSnapshot_def Let_def ListVersions_eq)

lemma os_Remove_ok:
  assumes "\<not> remove_fails F name"
  shows "\<exists>e. os_Remove F d name = (e, AList.delete name d) \<and> (e = None \<or> e = Some ErrNotExist)"
proof (cases "map_of d name")
  case None
  then have "name \<notin> fst ` set d" by (simp add: map_of_eq_None_iff)
  then have "AList.delete name d = d" by (rule delete_id)
  with None show ?thesis by (simp add: os_Remove_def)
next
  case (Some f)
  with assms show ?thesis by (simp add: os_Remove_def)
qed

lemma LocalStorage_Delete_ok:
  assumes "\<forall>fn. \<not> remove_fails F fn"
  shows "LocalStorage_Delete F d ident =
           (None, AList.delete (ident @ ''.json'') (AList.delete (ident @ ''.tar.gz'') d))"
proof -
  from assms os_Remove_ok[of F "ident @ ''.tar.gz''" d] obtain e1 where
    e1: "os_Remove F d (ident @ ''.tar.gz'') = (e1, AList.delete (ident @ ''.tar.gz'') d)"
      "e1 = None \<or> e1 = Some ErrNotExist" by blast
  from assms os_Remove_ok[of F "ident @ ''.json''" "AList.delete (ident @ ''.tar.gz'') d"] obtain e2 where
    e2: "os_Remove F (AList.delete (ident @ ''.tar.gz'') d) (ident @ ''.json'') =
          (e2, AList.delete (ident @ ''.json'') (AList.delete (ident @ ''.tar.gz'') d))"
      "e2 = None \<or> e2 = Some ErrNotExist" by blast
  show ?thesis using e1 e2 by (auto simp: LocalStorage_Delete_def)
qed

lemma DeleteSnapshot_loop_LocalStorage:
  assumes rm: "\<forall>fn. \<not> remove_fails F fn"
  shows "\<exists>d'. DeleteSnapshot_loop (LocalStorage F) name versions d = (None, d') \<and>
           (\<forall>fn. map_of d' fn =
              (if \<exists>v \<in> set versions. fn = name @ ''@'' @ vi_Version v @ ''.tar.gz'' \<or>
                                        fn = name @ ''@'' @ vi_Version v @ ''.json''
               then None else map_of d fn))"
proof (induction versions arbitrary: d)
  case Nil
  show ?case by simp
next
  case (Cons version versions)
  let ?ident = "name @ ''@'' @ vi_Version version"
  let ?d1 = "AList.delete (?ident @ ''.json'') (AList.delete (?ident @ ''.tar.gz'') d)"
  have del: "be_Delete (LocalStorage F) d ?ident = (None, ?d1)"
    using LocalStorage_Delete_ok[OF rm] by (simp add: LocalStorage_def)
  from Cons[of ?d1] obtain d' where
    d': "DeleteSnapshot_loop (LocalStorage F) name versions ?d1 = (None, d')"
      "\<forall>fn. map_of d' fn =
              (if \<exists>v \<in> set versions. fn = name @ ''@'' @ vi_Version v @ ''.tar.gz'' \<or>
                                        fn = name @ ''@'' @ vi_Version v @ ''.json''
               then None else map_of ?d1 fn)" by blast
  have "DeleteSnapshot_loop (LocalStorage F) name (version # versions) d = (None, d')"
    using del d'(1) by simp
  moreover have "\<forall>fn. map_of d' fn =
              (if \<exists>v \<in> set (version # versions). fn = name @ ''@'' @ vi_Version v @ ''.tar.gz'' \<or>
                                        fn = name @ ''@'' @ vi_Version v @ ''.json''
               then None else map_of d fn)"
    using d'(2) by (auto simp: delete_conv')
  ultimately show ?case by blast
qed

lemma LocalStorage_List_loop_set:
  "set (LocalStorage_List_loop F d entries backups) =
     set backups \<union>
     {m. \<exists>fn \<in> fst ` set entries. suffix ''.json'' fn \<and> map_of d fn = Some (Json m) \<and>
                                  \<not> open_fails F fn}"
proof (induction entries arbitrary: backups)
  case Nil
  show ?case by simp
next
  case (Cons entry entries)
  show ?case
    by (auto simp: Cons os_Open_def json_Decode_def split: option.splits os_file.splits)
qed

lemma LocalStorage_List_set:
  assumes "\<not> readdir_fails F"
  shows "\<exists>backups. be_List (LocalStorage F) d = Inr backups \<and>
           set backups = {m. \<exists>fn. suffix ''.json'' fn \<and> map_of d fn = Some (Json m) \<and>
                                 \<not> open_fails F fn}"
proof -
  have "{m. \<exists>fn \<in> fst ` set d. suffix ''.json'' fn \<and> map_of d fn = Some (Json m) \<and> \<not> open_fails F fn} =
        {m. \<exists>fn. suffix ''.json'' fn \<and> map_of d fn = Some (Json m) \<and> \<not> open_fails F fn}"
  proof (intro Collect_cong iffI)
    fix m
    assume "\<exists>fn. suffix ''.json'' fn \<and> map_of d fn = Some (Json m) \<and> \<not> open_fails F fn"
    then obtain fn where fn: "suffix ''.json'' fn" "map_of d fn = Some (Json m)" "\<not> open_fails F fn"
      by blast
    from fn(2) have "(fn, Json m) \<in> set d" by (rule map_of_SomeD)
    then have "fn \<in> fst ` set d" by force
    with fn show "\<exists>fn \<in> fst ` set d. suffix ''.json'' fn \<and> map_of d fn = Some (Json m) \<and>
        \<not> open_fails F fn" by blast
  qed blast
  then show ?thesis
    using assms
    by (simp add: LocalStorage_def LocalStorage_List_def os_ReadDir_def LocalStorage_List_loop_set)
qed

lemma DeleteSnapshot_LocalStorage:
  assumes rm: "\<forall>fn. \<not> remove_fails F fn" and rd: "\<not> readdir_fails F"
    and wf: "\<forall>fn m. map_of d fn = Some (Json m) \<longrightarrow> fn = md_ID m @ ''.json''"
    and nm: "cleanSnapshotName n = name" and stable: "cleanSnapshotName name = name"
    and bare: "CHR ''@'' \<notin> set name"
  shows "\<exists>versions. ListVersions (LocalStorage F) d n = Inr versions \<and>
           (if versions = []
            then DeleteSnapshot (LocalStorage F) d n =
                   (Some (Errorf (''no snapshots found with name '' @ name)), d)
            else \<exists>d'. DeleteSnapshot (LocalStorage F) d n = (None, d') \<and>
                   ListVersions (LocalStorage F) d' n = Inr [] \<and>
                   (\<forall>fn. \<not> prefix (name @ ''@'') fn \<longrightarrow> map_of d' fn = map_of d fn))"
proof -
  let ?B = "LocalStorage F"
  let ?pre = "\<lambda>m. prefix (name @ ''@'') (md_ID m)"
  from LocalStorage_List_set[OF rd, of d] obtain backups where
    l: "be_List ?B d = Inr backups" and
    sb: "set backups = {m. \<exists>fn. suffix ''.json'' fn \<and> map_of d fn = Some (Json m) \<and>
                                 \<not> open_fails F fn}" by blast
  let ?versions = "map version_info (filter ?pre backups)"
  have lv: "ListVersions ?B d n = Inr ?versions"
    using l nm by (simp add: ListVersions_eq)
  have lv': "ListVersions ?B d name = Inr ?versions"
    using l stable by (simp add: ListVersions_eq)
  show ?thesis
  proof (cases "?versions = []")
    case True
    then have "DeleteSnapshot ?B d n = (Some (Errorf (''no snapshots found with name '' @ name)), d)"
      using nm bare lv' by (simp add: DeleteSnapshot_def Let_def)
    with lv True show ?thesis by simp
  next
    case False
    from DeleteSnapshot_loop_LocalStorage[OF rm, of name ?versions d] obtain d' where
      lp: "DeleteSnapshot_loop ?B name ?versions d = (None, d')" and
      mp: "\<forall>fn. map_of d' fn =
              (if \<exists>v \<in> set ?versions. fn = name @ ''@'' @ vi_Version v @ ''.tar.gz'' \<or>
                                         fn = name @ ''@'' @ vi_Version v @ ''.json''
               then None else map_of d fn)" by blast
    have ds: "DeleteSnapshot ?B d n = (None, d')"
      using nm bare lv' False lp by (simp add: DeleteSnapshot_def Let_def)
    from LocalStorage_List_set[OF rd, of d'] obtain backups' where
      l': "be_List ?B d' = Inr backups'" and
      sb': "set backups' = {m. \<exists>fn. suffix ''.json'' fn \<and> map_of d' fn = Some (Json m) \<and>
                                 \<not> open_fails F fn}" by blast
    have none: "filter ?pre backups' = []"
    proof (rule ccontr)
      assume "filter ?pre backups' \<noteq> []"
      then obtain m where m: "m \<in> set backups'" and pm: "?pre m"
        by (auto simp: filter_empty_conv)
      from m sb' obtain fn where fn: "suffix ''.json'' fn" "map_of d' fn = Some (Json m)"
        "\<not> open_fails F fn" by blast
      from fn(2) mp have notK: "\<not> (\<exists>v \<in> set ?versions. fn = name @ ''@'' @ vi_Version v @ ''.tar.gz'' \<or>
                                         fn = name @ ''@'' @ vi_Version v @ ''.json'')"
        and old: "map_of d fn = Some (Json m)"
        by (auto split: if_splits)
      from old fn sb have "m \<in> set backups" by blast
      with pm have v: "version_info m \<in> set ?versions" by simp
      from wf old have "fn = md_ID m @ ''.json''" by blast
      also have "md_ID m = name @ ''@'' @ vi_Version (version_info m)"
        using version_key[OF bare pm] by simp
      finally have "fn = name @ ''@'' @ vi_Version (version_info m) @ ''.json''" by simp
      with v notK show False by blast
    qed
    have after: "ListVersions ?B d' n = Inr []"
      using l' nm none by (simp add: ListVersions_eq)
    have keep: "\<forall>fn. \<not> prefix (name @ ''@'') fn \<longrightarrow> map_of d' fn = map_of d fn"
    proof (intro allI impI)
      fix fn assume np: "\<not> prefix (name @ ''@'') fn"
      have "\<not> (\<exists>v \<in> set ?versions. fn = name @ ''@'' @ vi_Version v @ ''.tar.gz'' \<or>
                                         fn = name @ ''@'' @ vi_Version v @ ''.json'')"
        using np by (auto simp: prefix_def)
      with mp[rule_format, of fn] show "map_of d' fn = map_of d fn" by (simp only: if_False)
    qed
    from lv False ds after keep show ?thesis by auto
  qed
qed

text \<open>
  Claim C6, on the code. A backup stored under the name \<open>b1.zip.zip\<close> is stored under the
  cleaned name \<open>b1.zip\<close>, and \<^verbatim>\<open>ListVersions\<close> of \<open>b1.zip.zip\<close> lists its version. Asked for
  the bare name, \<^verbatim>\<open>GetSnapshot\<close> cleans it to \<open>b1.zip\<close> and \<^verbatim>\<open>ListVersions\<close>, called by
  \<^verbatim>\<open>GetLatestVersion\<close>, cleans it again to \<open>b1\<close>: no version is found and nothing is
  retrieved, for \<open>b1.zip.zip\<close> and for \<open>b1.zip\<close> alike. The versioned name retrieves the
  backup. (For a name that cleaning leaves unchanged, \<open>GetSnapshot_latest\<close> above gives
  what the claim says.)
\<close>

theorem C6_bare_name_cleaned_twice:
  "StoreSnapshot (LocalStorage demo_os) ''20240101-000000'' 100 [] ''b1.zip.zip'' (demo_backup [1]) =
     (None, demo_zip_dir) \<and>
   ListVersions (LocalStorage demo_os) demo_zip_dir ''b1.zip.zip'' =
     Inr [\<lparr>vi_Version = ''20240101-000000'', vi_Size = 3, vi_CreatedAt = 100, vi_Description = []\<rparr>] \<and>
   GetSnapshot (LocalStorage demo_os) demo_zip_dir ''b1.zip.zip'' =
     Inl (Errorf ''no versions found for snapshot b1.zip'') \<and>
   GetSnapshot (LocalStorage demo_os) demo_zip_dir ''b1.zip'' =
     Inl (Errorf ''no versions found for snapshot b1'') \<and>
   GetSnapshot (LocalStorage demo_os) demo_zip_dir ''b1.zip@20240101-000000'' =
     Inr \<lparr>bk_ID = ''b1.zip@20240101-000000'',
          bk_Metadata = demo_meta ''b1.zip'' ''20240101-000000'' 100,
          bk_DataReader = [Data [1]]\<rparr>"
  by (simp add: demo_zip_dir_def storage_eval)

text \<open>
  Claim C7, on the code. With the one version of \<open>b1.zip\<close> stored, \<^verbatim>\<open>DeleteSnapshot\<close> of the
  bare name \<open>b1.zip.zip\<close> cleans the name to \<open>b1.zip\<close>, and \<^verbatim>\<open>ListVersions\<close> cleans it
  again to \<open>b1\<close>: it returns "no snapshots found" and deletes nothing, and the version is
  still listed. With a version of \<open>b1\<close> stored, \<^verbatim>\<open>DeleteSnapshot\<close> of \<open>b1.zip.zip\<close> finds
  that version, deletes the key \<open>b1.zip@\<dots>\<close>, which does not exist, and returns no error
  although the name it was given has no version. (For a name that cleaning leaves
  unchanged, \<open>DeleteSnapshot_LocalStorage\<close> and \<open>DeleteSnapshot_versioned\<close> above give what
  the claim says.)
\<close>

theorem C7_bare_name_cleaned_twice:
  "ListVersions (LocalStorage demo_os) demo_zip_dir ''b1.zip.zip'' =
     Inr [\<lparr>vi_Version = ''20240101-000000'', vi_Size = 3, vi_CreatedAt = 100, vi_Description = []\<rparr>] \<and>
   DeleteSnapshot (LocalStorage demo_os) demo_zip_dir ''b1.zip.zip'' =
     (Some (Errorf ''no snapshots found with name b1.zip''), demo_zip_dir) \<and>
   ListVersions (LocalStorage demo_os) demo_dir1 ''b1.zip.zip'' = Inr [] \<and>
   DeleteSnapshot (LocalStorage demo_os) demo_dir1 ''b1.zip.zip'' = (None, demo_dir1)"
  by (simp add: demo_zip_dir_def demo_dir1_def storage_eval)

section \<open>Properties of the filesystem backend\<close>

lemma reader_copy_data: "fst (reader_copy r) = reader_data r"
  by (induction r rule: reader_copy.induct) (auto split: prod.splits)

lemma io_Copy_reader:
  "0 < n \<Longrightarrow> io_Copy reader_Read n dst r = Some (dst @ fst (reader_copy r), snd (reader_copy r))"
proof (induction "reader_size r" arbitrary: r dst rule: less_induct)
  case less
  show ?case
  proof (cases r)
    case Nil
    then show ?thesis by (subst io_Copy.simps) simp
  next
    case (Cons x r')
    show ?thesis
    proof (cases x)
      case Fault
      with Cons show ?thesis by (subst io_Copy.simps) simp
    next
      case (Data s)
      let ?r2 = "if length s \<le> n then r' else Data (drop n s) # r'"
      have sz: "reader_size ?r2 < reader_size r"
        using Cons Data less.prems by (auto simp: reader_size_def)
      have "io_Copy reader_Read n dst r = io_Copy reader_Read n (dst @ take n s) ?r2"
        using Cons Data by (subst io_Copy.simps) simp
      also have "\<dots> = Some ((dst @ take n s) @ fst (reader_copy ?r2), snd (reader_copy ?r2))"
        using less.hyps[OF sz less.prems] .
      also have "\<dots> = Some (dst @ fst (reader_copy r), snd (reader_copy r))"
        using Cons Data by (auto split: prod.splits)
      finally show ?thesis .
    qed
  qed
qed

lemma ext_differ [simp]:
  "(x @ ''.tar.gz'' = x @ ''.json'') = False" "(x @ ''.json'' = x @ ''.tar.gz'') = False"
  by simp_all

lemma LocalStorage_Store_failed_fresh:
  assumes fresh: "map_of d (bk_ID backup @ ''.tar.gz'') = None" "map_of d (bk_ID backup @ ''.json'') = None"
    and rm: "\<not> remove_fails F (bk_ID backup @ ''.tar.gz'')" "\<not> remove_fails F (bk_ID backup @ ''.json'')"
    and failed: "LocalStorage_Store F d backup = (Some e, d')"
  shows "map_of d' = map_of d"
  using assms
  by (auto simp: LocalStorage_Store_def Let_def os_Create_def file_Copy_def json_Encode_def
      os_Remove_def update_conv' delete_conv' fun_upd_idem
      split: sum.splits prod.splits option.splits if_splits)

lemma LocalStorage_Store_ok:
  assumes "LocalStorage_Store F d backup = (None, d')"
  shows "map_of d' = (map_of d)
           (bk_ID backup @ ''.tar.gz'' \<mapsto> Bytes (reader_data (bk_DataReader backup)),
            bk_ID backup @ ''.json'' \<mapsto> Json (bk_Metadata backup))"
  using assms reader_copy_data[of "bk_DataReader backup"]
  by (auto simp: LocalStorage_Store_def Let_def os_Create_def file_Copy_def json_Encode_def
      os_Remove_def update_conv' delete_conv'
      split: sum.splits prod.splits option.splits if_splits)

lemma LocalStorage_Retrieve_absent:
  "map_of d (ident @ ''.json'') = None \<Longrightarrow>
   LocalStorage_Retrieve F d ident = Inl (Errorf (''backup not found: '' @ ident))"
  by (simp add: LocalStorage_Retrieve_def os_Open_def)

lemma LocalStorage_Store_fails_iff:
  "(\<exists>e d'. LocalStorage_Store F d backup = (Some e, d')) \<longleftrightarrow>
     create_fails F (bk_ID backup @ ''.tar.gz'') \<or> write_fails F (bk_ID backup @ ''.tar.gz'') \<or>
     snd (reader_copy (bk_DataReader backup)) \<noteq> None \<or>
     create_fails F (bk_ID backup @ ''.json'') \<or> write_fails F (bk_ID backup @ ''.json'')"
  by (auto simp: LocalStorage_Store_def Let_def os_Create_def file_Copy_def json_Encode_def
      split: sum.splits prod.splits option.splits if_splits)

lemma LocalStorage_Store_failed_removed:
  assumes rm: "\<not> remove_fails F (bk_ID backup @ ''.tar.gz'')" "\<not> remove_fails F (bk_ID backup @ ''.json'')"
    and failed: "LocalStorage_Store F d backup = (Some e, d')"
  shows "d' = d \<or> map_of d' (bk_ID backup @ ''.tar.gz'') = None"
  using assms
  by (auto simp: LocalStorage_Store_def Let_def os_Create_def file_Copy_def json_Encode_def
      os_Remove_def update_conv' delete_conv'
      split: sum.splits prod.splits option.splits if_splits)

lemma LocalStorage_Retrieve_no_data:
  "map_of d (ident @ ''.tar.gz'') = None \<Longrightarrow> \<exists>e. LocalStorage_Retrieve F d ident = Inl e"
  by (auto simp: LocalStorage_Retrieve_def os_Open_def split: sum.splits option.splits)

text \<open>
  Claim C8, as amended. \<^verbatim>\<open>LocalStorage.Store\<close> fails exactly when creating or writing the
  data file, reading the data stream, or creating or writing the metadata file fails. When
  neither file of the id exists before the call and the two files can be removed, a failed
  \<^verbatim>\<open>Store\<close> leaves the directory as it was: neither the data file nor the metadata file
  of the id exists, and \<^verbatim>\<open>Retrieve\<close> of the id answers "backup not found". When the two
  files can be removed, whatever the directory held, a failed \<^verbatim>\<open>Store\<close> leaves the directory
  untouched or leaves no data file of the id, and \<^verbatim>\<open>Retrieve\<close> of the id then returns an
  error. A \<^verbatim>\<open>Store\<close> that succeeds leaves both files, with the stream's bytes and the
  metadata.
\<close>

theorem C8_store_rollback:
  "((\<exists>e d'. LocalStorage_Store F d backup = (Some e, d')) \<longleftrightarrow>
      create_fails F (bk_ID backup @ ''.tar.gz'') \<or> write_fails F (bk_ID backup @ ''.tar.gz'') \<or>
      snd (reader_copy (bk_DataReader backup)) \<noteq> None \<or>
      create_fails F (bk_ID backup @ ''.json'') \<or> write_fails F (bk_ID backup @ ''.json'')) \<and>
   (map_of d (bk_ID backup @ ''.tar.gz'') = None \<and> map_of d (bk_ID backup @ ''.json'') = None \<and>
    \<not> remove_fails F (bk_ID backup @ ''.tar.gz'') \<and> \<not> remove_fails F (bk_ID backup @ ''.json'') \<longrightarrow>
      (\<forall>e d'. LocalStorage_Store F d backup = (Some e, d') \<longrightarrow>
         map_of d' = map_of d \<and>
         map_of d' (bk_ID backup @ ''.tar.gz'') = None \<and> map_of d' (bk_ID backup @ ''.json'') = None \<and>
         LocalStorage_Retrieve F d' (bk_ID backup) =
           Inl (Errorf (''backup not found: '' @ bk_ID backup)))) \<and>
   (\<not> remove_fails F (bk_ID backup @ ''.tar.gz'') \<and> \<not> remove_fails F (bk_ID backup @ ''.json'') \<longrightarrow>
      (\<forall>e d'. LocalStorage_Store F d backup = (Some e, d') \<longrightarrow>
         d' = d \<or>
         map_of d' (bk_ID backup @ ''.tar.gz'') = None \<and>
         (\<exists>e'. LocalStorage_Retrieve F d' (bk_ID backup) = Inl e'))) \<and>
   (\<forall>d'. LocalStorage_Store F d backup = (None, d') \<longrightarrow>
      map_of d' (bk_ID backup @ ''.tar.gz'') = Some (Bytes (reader_data (bk_DataReader backup))) \<and>
      map_of d' (bk_ID backup @ ''.json'') = Some (Json (bk_Metadata backup)))"
proof (intro conjI allI impI)
  show "(\<exists>e d'. LocalStorage_Store F d backup = (Some e, d')) \<longleftrightarrow>
      create_fails F (bk_ID backup @ ''.tar.gz'') \<or> write_fails F (bk_ID backup @ ''.tar.gz'') \<or>
      snd (reader_copy (bk_DataReader backup)) \<noteq> None \<or>
      create_fails F (bk_ID backup @ ''.json'') \<or> write_fails F (bk_ID backup @ ''.json'')"
    by (rule LocalStorage_Store_fails_iff)
next
  fix e d'
  assume pre: "map_of d (bk_ID backup @ ''.tar.gz'') = None \<and> map_of d (bk_ID backup @ ''.json'') = None \<and>
    \<not> remove_fails F (bk_ID backup @ ''.tar.gz'') \<and> \<not> remove_fails F (bk_ID backup @ ''.json'')"
    and failed: "LocalStorage_Store F d backup = (Some e, d')"
  have same: "map_of d' = map_of d"
    using pre failed by (intro LocalStorage_Store_failed_fresh[of d backup F e d']) simp_all
  then show "map_of d' = map_of d" .
  from same pre show "map_of d' (bk_ID backup @ ''.tar.gz'') = None"
    and nj: "map_of d' (bk_ID backup @ ''.json'') = None" by simp_all
  from nj show "LocalStorage_Retrieve F d' (bk_ID backup) =
           Inl (Errorf (''backup not found: '' @ bk_ID backup))"
    by (rule LocalStorage_Retrieve_absent)
next
  fix e d'
  assume rm: "\<not> remove_fails F (bk_ID backup @ ''.tar.gz'') \<and> \<not> remove_fails F (bk_ID backup @ ''.json'')"
    and failed: "LocalStorage_Store F d backup = (Some e, d')"
  from rm failed have "d' = d \<or> map_of d' (bk_ID backup @ ''.tar.gz'') = None"
    by (intro LocalStorage_Store_failed_removed[of F backup d e d']) simp_all
  then show "d' = d \<or>
         map_of d' (bk_ID backup @ ''.tar.gz'') = None \<and>
         (\<exists>e'. LocalStorage_Retrieve F d' (bk_ID backup) = Inl e')"
    using LocalStorage_Retrieve_no_data[of d' "bk_ID backup" F] by blast
next
  fix d'
  assume "LocalStorage_Store F d backup = (None, d')"
  from LocalStorage_Store_ok[OF this]
  show "map_of d' (bk_ID backup @ ''.tar.gz'') = Some (Bytes (reader_data (bk_DataReader backup)))"
    and "map_of d' (bk_ID backup @ ''.json'') = Some (Json (bk_Metadata backup))"
    by simp_all
qed

theorem C8_store_rollback_witness:
  "LocalStorage_Store demo_nometa_os [] demo_broken_backup =
     (Some (Wrapped ''failed to write backup data'' IOFailure), []) \<and>
   LocalStorage_Store demo_nometa_os [] (demo_broken_backup\<lparr>bk_DataReader := [Data [2]]\<rparr>) =
     (Some (Wrapped ''failed to create metadata file'' IOFailure), []) \<and>
   LocalStorage_Retrieve demo_nometa_os [] ''b1@20240101-013000'' =
     Inl (Errorf ''backup not found: b1@20240101-013000'') \<and>
   LocalStorage_Store demo_nometa_os demo_dir1 (demo_broken_backup\<lparr>bk_DataReader := [Data [2]]\<rparr>) =
     (Some (Wrapped ''failed to create metadata file'' IOFailure),
      [(''b1@20240101-013000.json'', Json (demo_meta ''b1'' ''20240101-013000'' 100))]) \<and>
   LocalStorage_Retrieve demo_nometa_os
     [(''b1@20240101-013000.json'', Json (demo_meta ''b1'' ''20240101-013000'' 100))]
     ''b1@20240101-013000'' = Inl (Wrapped ''failed to open backup file'' ErrNotExist)"
proof -
  have s1: "LocalStorage_Store demo_nometa_os [] demo_broken_backup =
     (Some (Wrapped ''failed to write backup data'' IOFailure), [])"
    by (simp add: demo_nometa_os_def demo_broken_backup_def storage_eval)
  have s2: "LocalStorage_Store demo_nometa_os [] (demo_broken_backup\<lparr>bk_DataReader := [Data [2]]\<rparr>) =
     (Some (Wrapped ''failed to create metadata file'' IOFailure), [])"
    by (simp add: demo_nometa_os_def demo_broken_backup_def storage_eval)
  have pre: "map_of [] (bk_ID demo_broken_backup @ ''.tar.gz'') = None \<and>
    map_of [] (bk_ID demo_broken_backup @ ''.json'') = None \<and>
    \<not> remove_fails demo_nometa_os (bk_ID demo_broken_backup @ ''.tar.gz'') \<and>
    \<not> remove_fails demo_nometa_os (bk_ID demo_broken_backup @ ''.json'')"
    by (simp add: demo_nometa_os_def demo_os_def)
  from C8_store_rollback[of demo_nometa_os "[]" demo_broken_backup, THEN conjunct2, THEN conjunct1,
      THEN mp, OF pre, rule_format, OF s1]
  have "LocalStorage_Retrieve demo_nometa_os [] (bk_ID demo_broken_backup) =
           Inl (Errorf (''backup not found: '' @ bk_ID demo_broken_backup))"
    by simp
  then have r: "LocalStorage_Retrieve demo_nometa_os [] ''b1@20240101-013000'' =
     Inl (Errorf ''backup not found: b1@20240101-013000'')"
    by (simp add: demo_broken_backup_def)
  let ?left = "[(''b1@20240101-013000.json'', Json (demo_meta ''b1'' ''20240101-013000'' 100))]"
  have s3: "LocalStorage_Store demo_nometa_os demo_dir1 (demo_broken_backup\<lparr>bk_DataReader := [Data [2]]\<rparr>) =
     (Some (Wrapped ''failed to create metadata file'' IOFailure), ?left)"
    by (simp add: demo_nometa_os_def demo_broken_backup_def demo_dir1_def storage_eval)
  have rm: "\<not> remove_fails demo_nometa_os (bk_ID (demo_broken_backup\<lparr>bk_DataReader := [Data [2]]\<rparr>) @ ''.tar.gz'') \<and>
    \<not> remove_fails demo_nometa_os (bk_ID (demo_broken_backup\<lparr>bk_DataReader := [Data [2]]\<rparr>) @ ''.json'')"
    by (simp add: demo_nometa_os_def demo_os_def)
  from C8_store_rollback[of demo_nometa_os demo_dir1 "demo_broken_backup\<lparr>bk_DataReader := [Data [2]]\<rparr>",
      THEN conjunct2, THEN conjunct2, THEN conjunct1, THEN mp, OF rm, rule_format, OF s3]
  have "\<exists>e'. LocalStorage_Retrieve demo_nometa_os ?left ''b1@20240101-013000'' = Inl e'"
    by (simp add: demo_broken_backup_def demo_dir1_def)
  then have r3: "LocalStorage_Retrieve demo_nometa_os ?left ''b1@20240101-013000'' =
      Inl (Wrapped ''failed to open backup file'' ErrNotExist)"
    by (simp add: demo_nometa_os_def storage_eval)
  show ?thesis using s1 s2 r s3 r3 by simp
qed

theorem C8_store_rollback_counterexample:
  "LocalStorage_Store demo_os demo_dir1 demo_broken_backup =
     (Some (Wrapped ''failed to write backup data'' IOFailure),
      [(''b1@20240101-013000.json'', Json (demo_meta ''b1'' ''20240101-013000'' 100))]) \<and>
   LocalStorage_Store demo_stuck_os [] (demo_broken_backup\<lparr>bk_DataReader := [Data [2]]\<rparr>) =
     (Some (Wrapped ''failed to create metadata file'' IOFailure),
      [(''b1@20240101-013000.tar.gz'', Bytes [2])])"
  by (simp add: demo_dir1_def demo_stuck_os_def demo_nometa_os_def demo_broken_backup_def storage_eval)

section \<open>Properties of the restore orchestrator\<close>

lemma zero_notin_magic: "0 \<notin> set magic"
  by (simp add: magic_def bytes_of_string_def)

lemma not_IsEncrypted_padded:
  assumes np: "\<not> prefix magic (reader_data r)" and rd: "reader_Read r 512 = ((buf, None), r')"
  shows "\<not> IsEncrypted (buf @ replicate (512 - length buf) 0)"
proof
  assume enc: "IsEncrypted (buf @ replicate (512 - length buf) 0)"
  then have t: "take 8 (buf @ replicate (512 - length buf) 0) = magic"
    by (simp add: IsEncrypted_def)
  from rd obtain s r0 where r: "r = Data s # r0" and buf: "buf = take 512 s"
    by (cases "(r, 512::nat)" rule: reader_Read.cases) auto
  show False
  proof (cases "8 \<le> length buf")
    case True
    with t have "take 8 buf = magic" by simp
    then have "take 8 s = magic" using buf by (simp add: min_def)
    then have "prefix magic s" by (metis take_is_prefix)
    then have "prefix magic (reader_data r)" using r by (simp add: prefix_prefix)
    with np show False by simp
  next
    case False
    then have lb: "length buf < 8" by simp
    have "length buf \<le> 512" using buf by simp
    then have "(buf @ replicate (512 - length buf) 0) ! length buf = 0"
      using lb by (simp add: nth_append)
    moreover have "take 8 (buf @ replicate (512 - length buf) 0) ! length buf =
          (buf @ replicate (512 - length buf) 0) ! length buf"
      using lb by (intro nth_take)
    ultimately have "magic ! length buf = 0" using t by simp
    moreover have "magic ! length buf \<in> set magic" using lb by (intro nth_mem) simp
    ultimately show False using zero_notin_magic by simp
  qed
qed

lemma restore_finalReader_no_header:
  assumes "md_Encrypted (bk_Metadata backup)" "\<not> prefix magic (reader_data (bk_DataReader backup))"
  shows "restore_finalReader C env backup =
     Inl (case reader_Read (bk_DataReader backup) 512 of
            ((buf, Some e), r') \<Rightarrow> Wrapped ''failed to read backup header'' e
          | ((buf, None), r') \<Rightarrow>
              Errorf ''backup marked as encrypted but no encryption header found'')"
proof (cases "reader_Read (bk_DataReader backup) 512")
  case (Pair res r')
  obtain buf err where res: "res = (buf, err)" by (cases res)
  show ?thesis
  proof (cases err)
    case None
    with Pair res have rd: "reader_Read (bk_DataReader backup) 512 = ((buf, None), r')" by simp
    from not_IsEncrypted_padded[OF assms(2) rd]
    show ?thesis using assms(1) rd by (simp add: restore_finalReader_def Let_def)
  next
    case (Some e)
    with Pair res assms(1) show ?thesis by (simp add: restore_finalReader_def)
  qed
qed

lemma RestoreDirectVolume_no_header:
  assumes "c_storage env = Some (B, st)" "GetSnapshot B st snapshotName = Inr backup"
    "md_Encrypted (bk_Metadata backup)" "\<not> prefix magic (reader_data (bk_DataReader backup))"
    "RestoreDirectVolume C env volumeName snapshotName dryRun force = Some (err, extracted)"
  shows "extracted = None"
  using assms restore_finalReader_no_header[OF assms(3,4), of C env]
  by (auto simp: RestoreDirectVolume_def split: sum.splits option.splits if_splits)

lemma RestoreDirectVolume_no_header_error:
  assumes "c_storage env = Some (B, st)" "GetSnapshot B st snapshotName = Inr backup"
    "md_Encrypted (bk_Metadata backup)" "\<not> prefix magic (reader_data (bk_DataReader backup))"
    "docker_VolumeExists env volumeName = Inr True" "docker_GetVolume env volumeName = None"
    "\<not> dryRun" "force \<or> prompt_response env = ''y'' \<or> prompt_response env = ''Y''"
    "\<not> os_CreateTemp_fails env"
  shows "RestoreDirectVolume C env volumeName snapshotName dryRun force =
     Some (Some (case reader_Read (bk_DataReader backup) 512 of
                   ((buf, Some e), r') \<Rightarrow> Wrapped ''failed to read backup header'' e
                 | ((buf, None), r') \<Rightarrow>
                     Errorf ''backup marked as encrypted but no encryption header found''), None)"
  using assms(1,2,5-9) restore_finalReader_no_header[OF assms(3,4), of C env]
  by (auto simp: RestoreDirectVolume_def)

lemma RestoreDirectVolume_no_header_returns:
  assumes "c_storage env = Some (B, st)" "GetSnapshot B st snapshotName = Inr backup"
    "md_Encrypted (bk_Metadata backup)" "\<not> prefix magic (reader_data (bk_DataReader backup))"
  shows "\<exists>err. RestoreDirectVolume C env volumeName snapshotName dryRun force = Some (err, None)"
  using assms(1,2) restore_finalReader_no_header[OF assms(3,4), of C env]
  by (auto simp: RestoreDirectVolume_def split: sum.splits option.splits)

text \<open>
  Claim C5, as amended. For a retrieved backup whose metadata says encrypted and whose data
  stream does not begin with the magic tag "DVOM-ENC", the restore never reaches the
  extraction step and never makes a plain or a decrypting reader of the stream. When the
  restore gets as far as the data (the target volume exists, it is not a dry run, it is
  forced or confirmed with "y" or "Y", and the temporary file is created), it fails: with
  "backup marked as encrypted but no encryption header found" when the first read of the
  stream succeeds, and with "failed to read backup header" when that read fails, as it
  does with end of file on an empty stream. A dry run and a restore that is not confirmed
  return without an error and without reading the stream.
\<close>

theorem C5_missing_header:
  "c_storage env = Some (B, st) \<and> GetSnapshot B st snapshotName = Inr backup \<and>
   md_Encrypted (bk_Metadata backup) \<and> \<not> prefix magic (reader_data (bk_DataReader backup)) \<longrightarrow>
     (\<exists>err. RestoreDirectVolume C env volumeName snapshotName dryRun force = Some (err, None)) \<and>
     restore_finalReader C env backup =
       Inl (case reader_Read (bk_DataReader backup) 512 of
              ((buf, Some e), r') \<Rightarrow> Wrapped ''failed to read backup header'' e
            | ((buf, None), r') \<Rightarrow>
                Errorf ''backup marked as encrypted but no encryption header found'') \<and>
     (docker_VolumeExists env volumeName = Inr True \<and> docker_GetVolume env volumeName = None \<and>
      \<not> dryRun \<and> (force \<or> prompt_response env = ''y'' \<or> prompt_response env = ''Y'') \<and>
      \<not> os_CreateTemp_fails env \<longrightarrow>
        RestoreDirectVolume C env volumeName snapshotName dryRun force =
          Some (Some (case reader_Read (bk_DataReader backup) 512 of
                        ((buf, Some e), r') \<Rightarrow> Wrapped ''failed to read backup header'' e
                      | ((buf, None), r') \<Rightarrow>
                          Errorf ''backup marked as encrypted but no encryption header found''),
                None)) \<and>
     ((dryRun \<or> (\<not> force \<and> prompt_response env \<noteq> ''y'' \<and> prompt_response env \<noteq> ''Y'')) \<and>
      docker_VolumeExists env volumeName = Inr True \<and> docker_GetVolume env volumeName = None \<longrightarrow>
        RestoreDirectVolume C env volumeName snapshotName dryRun force = Some (None, None))"
proof (intro impI conjI)
  assume a: "c_storage env = Some (B, st) \<and> GetSnapshot B st snapshotName = Inr backup \<and>
   md_Encrypted (bk_Metadata backup) \<and> \<not> prefix magic (reader_data (bk_DataReader backup))"
  then have s: "c_storage env = Some (B, st)" and g: "GetSnapshot B st snapshotName = Inr backup"
    and e: "md_Encrypted (bk_Metadata backup)"
    and np: "\<not> prefix magic (reader_data (bk_DataReader backup))" by simp_all
  show "\<exists>err. RestoreDirectVolume C env volumeName snapshotName dryRun force = Some (err, None)"
    by (rule RestoreDirectVolume_no_header_returns[OF s g e np])
  show "restore_finalReader C env backup =
       Inl (case reader_Read (bk_DataReader backup) 512 of
              ((buf, Some e), r') \<Rightarrow> Wrapped ''failed to read backup header'' e
            | ((buf, None), r') \<Rightarrow>
                Errorf ''backup marked as encrypted but no encryption header found'')"
    by (rule restore_finalReader_no_header[OF e np])
  {
    assume b: "docker_VolumeExists env volumeName = Inr True \<and> docker_GetVolume env volumeName = None \<and>
      \<not> dryRun \<and> (force \<or> prompt_response env = ''y'' \<or> prompt_response env = ''Y'') \<and>
      \<not> os_CreateTemp_fails env"
    then show "RestoreDirectVolume C env volumeName snapshotName dryRun force =
          Some (Some (case reader_Read (bk_DataReader backup) 512 of
                        ((buf, Some e), r') \<Rightarrow> Wrapped ''failed to read backup header'' e
                      | ((buf, None), r') \<Rightarrow>
                          Errorf ''backup marked as encrypted but no encryption header found''),
                None)"
      by (intro RestoreDirectVolume_no_header_error[OF s g e np]) simp_all
  }
  {
    assume "(dryRun \<or> (\<not> force \<and> prompt_response env \<noteq> ''y'' \<and> prompt_response env \<noteq> ''Y'')) \<and>
      docker_VolumeExists env volumeName = Inr True \<and> docker_GetVolume env volumeName = None"
    then show "RestoreDirectVolume C env volumeName snapshotName dryRun force = Some (None, None)"
      using s g by (auto simp: RestoreDirectVolume_def)
  }
qed

lemmas restore_eval =
  RestoreDirectVolume_def restore_finalReader_def final_Copy_def demo_client_def demo_enc_dir_def
  IsEncrypted_def io_MultiReader_def magic_def bytes_of_string_def

theorem C5_missing_header_witness:
  "RestoreDirectVolume ref_crypto (demo_client [1, 2, 3]) ''v1'' ''e1'' False False =
     Some (Some (Errorf ''backup marked as encrypted but no encryption header found''), None)"
proof -
  let ?backup = "\<lparr>bk_ID = ''e1@20240101-000000'',
       bk_Metadata = (demo_meta ''e1'' ''20240101-000000'' 100)\<lparr>md_Encrypted := True\<rparr>,
       bk_DataReader = [Data [1, 2, 3]]\<rparr>"
  have g: "GetSnapshot (LocalStorage demo_os) (demo_enc_dir [1, 2, 3]) ''e1'' = Inr ?backup"
    by (simp add: demo_enc_dir_def storage_eval)
  have a: "c_storage (demo_client [1, 2, 3]) = Some (LocalStorage demo_os, demo_enc_dir [1, 2, 3]) \<and>
     GetSnapshot (LocalStorage demo_os) (demo_enc_dir [1, 2, 3]) ''e1'' = Inr ?backup \<and>
     md_Encrypted (bk_Metadata ?backup) \<and> \<not> prefix magic (reader_data (bk_DataReader ?backup))"
    using g by (simp add: demo_client_def demo_meta_def magic_def bytes_of_string_def)
  have b: "docker_VolumeExists (demo_client [1, 2, 3]) ''v1'' = Inr True \<and>
      docker_GetVolume (demo_client [1, 2, 3]) ''v1'' = None \<and>
      \<not> False \<and> (False \<or> prompt_response (demo_client [1, 2, 3]) = ''y'' \<or>
         prompt_response (demo_client [1, 2, 3]) = ''Y'') \<and>
      \<not> os_CreateTemp_fails (demo_client [1, 2, 3])"
    by (simp add: demo_client_def)
  from C5_missing_header[of "demo_client [1, 2, 3]" "LocalStorage demo_os" "demo_enc_dir [1, 2, 3]"
      "''e1''" ?backup ref_crypto "''v1''" False False, THEN mp, OF a,
      THEN conjunct2, THEN conjunct2, THEN conjunct1, THEN mp, OF b]
  show ?thesis by simp
qed

theorem C5_missing_header_counterexample:
  "RestoreDirectVolume ref_crypto (demo_client []) ''v1'' ''e1'' False False =
     Some (Some (Wrapped ''failed to read backup header'' EOF), None) \<and>
   RestoreDirectVolume ref_crypto (demo_client [1, 2, 3]) ''v1'' ''e1'' True False =
     Some (None, None)"
  by (simp add: restore_eval storage_eval)

subsection \<open>The restore path and the chunk boundaries\<close>

text \<open>
  \<^verbatim>\<open>RestoreDirectVolume\<close> looks at the first 512 bytes of an encrypted backup and puts
  them back in front of the stream with \<^verbatim>\<open>io.MultiReader\<close>. The decrypting reader then
  gets, from its first \<^verbatim>\<open>Read\<close>, what is left of those 512 bytes after the header, and
  takes it for a sealed chunk. A stream of at most 512 bytes (a plaintext of at most 443
  bytes) is restored; a stream of 513 to 527 bytes is cut less than a tag before its end,
  and the restore fails whatever \<^verbatim>\<open>Open\<close> says of the first 459 bytes.
\<close>

lemma restore_within_peek:
  assumes c: "gcm_contract C" and ls: "length salt = 32" and ln: "length nonce = 12"
    and hi: "length data \<le> 443"
    and enc: "md_Encrypted (bk_Metadata backup)"
    and rd: "bk_DataReader backup =
        bytes_NewReader (magic @ [1] @ salt @ nonce @
          sealed_chunks C (DeriveKey C pw salt) nonce 65536 0 data)"
    and pw: "c_password env = pw" "pw \<noteq> []"
  shows "\<exists>dr. restore_finalReader C env backup = Inr (DecryptingReader dr) \<and>
           final_Copy C (DecryptingReader dr) = Some (data, None)"
proof -
  let ?key = "DeriveKey C pw salt"
  let ?body = "sealed_chunks C ?key nonce 65536 0 data"
  let ?hdr = "magic @ [1] @ salt @ nonce"
  have ov: "gcm_Overhead C = 16" using c by (simp add: gcm_contract_def)
  have lk: "length ?key = KeySize" by (rule DeriveKey_length[OF c])
  have lnz: "length nonce = NonceSize" using ln by (simp add: NonceSize_def)
  have lbody: "length ?body \<le> 459"
  proof (cases "data = []")
    case True
    then show ?thesis by simp
  next
    case False
    then have "?body = gcm_Seal C ?key (er_chunkNonce nonce 0) data"
      using hi by (subst sealed_chunks.simps) simp
    then show ?thesis using c lk lnz ov hi by (simp add: gcm_contract_def)
  qed
  define H where "H = ?hdr"
  define S where "S = ?body"
  have lH: "length H = 53" using ls ln by (simp add: H_def)
  have lS: "length S \<le> 459" using lbody by (simp add: S_def)
  have m8: "take 8 H = magic" by (simp add: H_def)
  have "reader_Read (bytes_NewReader (H @ S)) 512 = ((H @ S, None), [])"
    using lH lS by (auto simp: bytes_NewReader_def)
  then have r0: "reader_Read (bk_DataReader backup) 512 = ((?hdr @ ?body, None), [])"
    unfolding rd H_def S_def by (simp only: append_assoc)
  have "IsEncrypted ((H @ S) @ replicate (512 - length (H @ S)) 0)"
    using lH m8 by (simp add: IsEncrypted_def)
  then have ie: "IsEncrypted ((?hdr @ ?body) @ replicate (512 - length (?hdr @ ?body)) 0)"
    unfolding H_def S_def .
  have "io_MultiReader [bytes_NewReader (H @ S), []] = bytes_NewReader (H @ S)"
    by (simp add: io_MultiReader_def)
  then have rem: "io_MultiReader [bytes_NewReader (?hdr @ ?body), []] =
                  bytes_NewReader (magic @ [1] @ salt @ nonce @ ?body)"
    unfolding H_def S_def by (simp only: append_assoc)
  have h: "ReadEncryptionHeader (io_MultiReader [bytes_NewReader (?hdr @ ?body), []]) =
           (Inr \<lparr>Salt = salt, Nonce = nonce\<rparr>, bytes_NewReader ?body)"
    unfolding rem using ls ln by (rule ReadEncryptionHeader_bytes_NewReader)
  let ?dr = "\<lparr>dr_reader = bytes_NewReader ?body, dr_cipher = ?key,
            dr_baseNonce = nonce, dr_counter = 0, dr_buffer = 65536 + gcm_Overhead C,
            dr_decrypted = [], dr_eof = False\<rparr>"
  have fr: "restore_finalReader C env backup = Inr (DecryptingReader ?dr)"
    using enc pw ie h r0
    by (simp add: restore_finalReader_def Let_def NewDecryptReader_def aes_NewCipher_DeriveKey[OF c]
        del: append_assoc replicate_eq_replicate)
  have cp: "io_Copy (DecryptReader_Read C) (32 * 1024) [] ?dr = Some ([] @ data, None)"
    using c lk lnz by (intro dr_copy) simp_all
  show ?thesis using fr cp by (simp add: final_Copy_def)
qed

lemma RestoreDirectVolume_within_peek:
  assumes c: "gcm_contract C" and r: "44 \<le> length (reader_data rnd)" and n: "0 < n"
    and hi: "length data \<le> 443"
    and e: "encrypt_stream C rnd pw (bytes_NewReader data) n = Some (Inr ct)"
    and env: "c_storage env = Some (B, st)" "docker_VolumeExists env volumeName = Inr True"
      "docker_GetVolume env volumeName = None" "\<not> os_CreateTemp_fails env"
      "c_password env = pw" "pw \<noteq> []" "\<not> tempFile_Close_fails env"
      "restoreDirectVolume env data = None"
    and b: "GetSnapshot B st snapshotName = Inr backup" "md_Encrypted (bk_Metadata backup)"
      "bk_DataReader backup = bytes_NewReader ct"
  shows "RestoreDirectVolume C env volumeName snapshotName False True = Some (None, Some data)"
proof -
  let ?salt = "take 32 (reader_data rnd)"
  let ?nonce = "take 12 (drop 32 (reader_data rnd))"
  have ls: "length ?salt = 32" and ln: "length ?nonce = 12" using r by simp_all
  have ct: "ct = magic @ [1] @ ?salt @ ?nonce @
              sealed_chunks C (DeriveKey C pw ?salt) ?nonce 65536 0 data"
    using encrypt_stream_ok[OF c r n, of pw data] e by simp
  from restore_within_peek[OF c ls ln hi b(2) b(3)[unfolded ct] env(5,6)]
  obtain dr where "restore_finalReader C env backup = Inr (DecryptingReader dr)"
    "final_Copy C (DecryptingReader dr) = Some (data, None)"
    by blast
  then show ?thesis
    using env b(1) by (simp add: RestoreDirectVolume_def)
qed

lemma restore_peek_splits_chunk:
  assumes c: "gcm_contract C" and ls: "length salt = 32" and ln: "length nonce = 12"
    and lo: "444 \<le> length data" and hi: "length data \<le> 458"
    and enc: "md_Encrypted (bk_Metadata backup)"
    and rd: "bk_DataReader backup =
        bytes_NewReader (magic @ [1] @ salt @ nonce @
          sealed_chunks C (DeriveKey C pw salt) nonce 65536 0 data)"
    and pw: "c_password env = pw" "pw \<noteq> []"
  shows "\<exists>dr w. restore_finalReader C env backup = Inr (DecryptingReader dr) \<and>
           final_Copy C (DecryptingReader dr) =
             Some (w, Some (Wrapped ''decryption failed'' ErrOpen))"
proof -
  let ?key = "DeriveKey C pw salt"
  let ?S = "gcm_Seal C ?key (er_chunkNonce nonce 0) data"
  let ?hdr = "magic @ [1] @ salt @ nonce"
  let ?ct = "?hdr @ ?S"
  have ov: "gcm_Overhead C = 16" using c by (simp add: gcm_contract_def)
  have lk: "length ?key = KeySize" by (rule DeriveKey_length[OF c])
  have lnz: "length nonce = NonceSize" using ln by (simp add: NonceSize_def)
  have dnz: "data \<noteq> []" using lo by auto
  have body: "sealed_chunks C ?key nonce 65536 0 data = ?S"
    using dnz hi by (subst sealed_chunks.simps) simp
  have lS: "length ?S = length data + 16"
    using c lk lnz ov by (simp add: gcm_contract_def)
  have lh: "length ?hdr = 53" using ls ln by simp
  let ?a = "take 459 ?S" and ?b = "drop 459 ?S"
  have la: "length ?a = 459" using lS lo by simp
  have lb: "0 < length ?b" "length ?b < 16" using lS lo hi by simp_all
  have bnz: "?b \<noteq> []" using lb by auto
  have anz: "?a \<noteq> []" using la by auto
  define H where "H = ?hdr"
  define S where "S = ?S"
  have lH: "length H = 53" using lh by (simp add: H_def)
  have lS': "length S = length data + 16" using lS by (simp add: S_def)
  have "reader_Read (bytes_NewReader (H @ S)) 512 = ((H @ take 459 S, None), [Data (drop 459 S)])"
    using lH lS' lo by (auto simp: bytes_NewReader_def)
  then have r0: "reader_Read (bk_DataReader backup) 512 = ((?hdr @ ?a, None), [Data ?b])"
    unfolding rd body H_def S_def by (simp only: append_assoc)
  have pad: "512 - length (?hdr @ ?a) = 0" using lh la by simp
  have ie: "IsEncrypted ((?hdr @ ?a) @ replicate (512 - length (?hdr @ ?a)) 0)"
    unfolding pad by (simp add: IsEncrypted_def)
  let ?rem = "io_MultiReader [bytes_NewReader (?hdr @ ?a), [Data ?b]]"
  have rem: "?rem = [Data (?hdr @ ?a), Data ?b]"
    by (simp add: io_MultiReader_def bytes_NewReader_def)
  have rdta: "reader_data [Data (?hdr @ ?a), Data ?b] = magic @ [1] @ salt @ nonce @ (?a @ ?b)"
    by simp
  have sk: "reader_skip 12 (reader_skip 32 (reader_skip 1 (reader_skip 8 [Data (?hdr @ ?a), Data ?b]))) =
            [Data ?a, Data ?b]"
    using ls ln la by simp
  have h: "ReadEncryptionHeader ?rem = (Inr \<lparr>Salt = salt, Nonce = nonce\<rparr>, [Data ?a, Data ?b])"
    unfolding rem using ReadEncryptionHeader_accepts[OF rdta ls ln] sk by simp
  let ?dr = "\<lparr>dr_reader = [Data ?a, Data ?b], dr_cipher = ?key,
            dr_baseNonce = nonce, dr_counter = 0, dr_buffer = 65536 + gcm_Overhead C,
            dr_decrypted = [], dr_eof = False\<rparr>"
  have fr: "restore_finalReader C env backup = Inr (DecryptingReader ?dr)"
    using enc pw ie h r0
    by (simp add: restore_finalReader_def Let_def NewDecryptReader_def aes_NewCipher_DeriveKey[OF c]
        del: append_assoc replicate_eq_replicate)
  have a1: "length (dr_baseNonce ?dr) = NonceSize" "dr_decrypted ?dr = []" "\<not> dr_eof ?dr"
    "reader_Read (dr_reader ?dr) (dr_buffer ?dr) = ((?a, None), [Data ?b])" "?a \<noteq> []"
    using ov lnz la anz by simp_all
  have "\<exists>w. io_Copy (DecryptReader_Read C) n [] ?dr =
           Some (w, Some (Wrapped ''decryption failed'' ErrOpen))" if n: "0 < n" for n
  proof (cases "gcm_Open C ?key (dr_chunkNonce nonce 0) ?a")
    case None
    then have "gcm_Open C (dr_cipher ?dr) (dr_chunkNonce (dr_baseNonce ?dr) (dr_counter ?dr)) ?a = None"
      by simp
    from io_Copy_decrypt_fails[OF a1 this] show ?thesis by blast
  next
    case (Some pt)
    let ?dr1 = "?dr\<lparr>dr_reader := [Data ?b], dr_decrypted := drop n pt, dr_counter := 1\<rparr>"
    have step: "DecryptReader_Read C ?dr n = ((take n pt, None), ?dr1)"
      using DecryptReader_Read_chunk[OF a1, of C n] Some by simp
    let ?dr2 = "?dr1\<lparr>dr_decrypted := []\<rparr>"
    have a2: "length (dr_baseNonce ?dr2) = NonceSize" "dr_decrypted ?dr2 = []" "\<not> dr_eof ?dr2"
      "reader_Read (dr_reader ?dr2) (dr_buffer ?dr2) = ((?b, None), [])" "?b \<noteq> []"
      using ov lnz lb bnz by simp_all
    have o2: "gcm_Open C (dr_cipher ?dr2) (dr_chunkNonce (dr_baseNonce ?dr2) (dr_counter ?dr2)) ?b = None"
      using c lk lnz lb ov by (simp add: gcm_contract_def dr_chunkNonce_eq)
    have "io_Copy (DecryptReader_Read C) n [] ?dr =
          io_Copy (DecryptReader_Read C) n ([] @ take n pt) ?dr1"
      by (subst io_Copy.simps) (simp add: step)
    also have "\<dots> = io_Copy (DecryptReader_Read C) n
                       (([] @ take n pt) @ drop n pt) ?dr2"
      using n by (intro dr_drain) simp_all
    also have "\<dots> = Some (([] @ take n pt) @ drop n pt,
                           Some (Wrapped ''decryption failed'' ErrOpen))"
      by (rule io_Copy_decrypt_fails[OF a2 o2])
    finally show ?thesis by blast
  qed
  from this[of "32 * 1024"] show ?thesis using fr by (auto simp: final_Copy_def)
qed

lemma RestoreDirectVolume_peek_splits_chunk:
  assumes c: "gcm_contract C" and r: "44 \<le> length (reader_data rnd)" and n: "0 < n"
    and lo: "444 \<le> length data" and hi: "length data \<le> 458"
    and e: "encrypt_stream C rnd pw (bytes_NewReader data) n = Some (Inr ct)"
    and env: "c_storage env = Some (B, st)" "docker_VolumeExists env volumeName = Inr True"
      "docker_GetVolume env volumeName = None" "\<not> os_CreateTemp_fails env"
      "c_password env = pw" "pw \<noteq> []"
    and b: "GetSnapshot B st snapshotName = Inr backup" "md_Encrypted (bk_Metadata backup)"
      "bk_DataReader backup = bytes_NewReader ct"
  shows "RestoreDirectVolume C env volumeName snapshotName False True =
           Some (Some (Wrapped ''failed to write backup data''
                         (Wrapped ''decryption failed'' ErrOpen)), None)"
proof -
  let ?salt = "take 32 (reader_data rnd)"
  let ?nonce = "take 12 (drop 32 (reader_data rnd))"
  have ls: "length ?salt = 32" and ln: "length ?nonce = 12" using r by simp_all
  have ct: "ct = magic @ [1] @ ?salt @ ?nonce @
              sealed_chunks C (DeriveKey C pw ?salt) ?nonce 65536 0 data"
    using encrypt_stream_ok[OF c r n, of pw data] e by simp
  from restore_peek_splits_chunk[OF c ls ln lo hi b(2) b(3)[unfolded ct] env(5,6)]
  obtain dr w where "restore_finalReader C env backup = Inr (DecryptingReader dr)"
    "final_Copy C (DecryptingReader dr) = Some (w, Some (Wrapped ''decryption failed'' ErrOpen))"
    by blast
  then show ?thesis
    using env b(1) by (simp add: RestoreDirectVolume_def)
qed

text \<open>
  The extraction step is reached only with the bytes of a copy that ended without an
  error: what a reader delivered before a chunk failed stays in the temporary file.
\<close>

lemma RestoreDirectVolume_extracts_whole_copy:
  assumes "RestoreDirectVolume C env volumeName snapshotName dryRun force = Some (err, Some archive)"
  shows "\<exists>B st backup finalReader.
           c_storage env = Some (B, st) \<and> GetSnapshot B st snapshotName = Inr backup \<and>
           restore_finalReader C env backup = Inr finalReader \<and>
           final_Copy C finalReader = Some (archive, None)"
  using assms
  by (auto simp: RestoreDirectVolume_def split: sum.splits option.splits if_splits prod.splits)

text \<open>
  Claim C1, on the code. The backup side encrypts the archive of 444 bytes into a stream
  of 513 bytes, stored as the data of the snapshot \<open>e1\<close>. Restoring \<open>e1\<close> with the same
  password fails with "decryption failed": \<^verbatim>\<open>RestoreDirectVolume\<close> has read 512 bytes to
  look for the magic tag, the decrypting reader gets the 459 bytes that follow the header
  as its first chunk and the last byte of the stream as its second, and neither is the
  sealed chunk of 460 bytes. Nothing is extracted. (The same stream read as one byte
  sequence decrypts to the archive, by \<open>codec_round_trip\<close>; an archive of at most 443
  bytes is restored, by \<open>RestoreDirectVolume_within_peek\<close>.)
\<close>

theorem C1_restore_rejects_own_backup:
  "length demo_plain = 444 \<and>
   encrypt_stream ref_crypto (bytes_NewReader demo_rand) ''pw'' (bytes_NewReader demo_plain) 100 =
     Some (Inr demo_sealed) \<and>
   length demo_sealed = 513 \<and>
   decrypt_stream ref_crypto ''pw'' (bytes_NewReader demo_sealed) 100 = Some (Inr demo_plain) \<and>
   GetSnapshot (LocalStorage demo_os) (demo_enc_dir demo_sealed) ''e1'' =
     Inr \<lparr>bk_ID = ''e1@20240101-000000'',
          bk_Metadata = (demo_meta ''e1'' ''20240101-000000'' 100)\<lparr>md_Encrypted := True\<rparr>,
          bk_DataReader = bytes_NewReader demo_sealed\<rparr> \<and>
   RestoreDirectVolume ref_crypto (demo_client demo_sealed) ''v1'' ''e1'' False True =
     Some (Some (Wrapped ''failed to write backup data'' (Wrapped ''decryption failed'' ErrOpen)),
           None)"
proof -
  have lp: "length demo_plain = 444" by (simp add: demo_plain_def)
  have r: "44 \<le> length (reader_data (bytes_NewReader demo_rand))" by (simp add: demo_rand_def)
  have rd: "reader_data (bytes_NewReader demo_rand) = demo_rand" by simp
  have small: "length demo_plain \<le> 65536" using lp by simp
  have nz: "demo_plain \<noteq> []" using lp by auto
  have sc: "sealed_chunks ref_crypto (DeriveKey ref_crypto ''pw'' (take 32 demo_rand))
              (take 12 (drop 32 demo_rand)) 65536 0 demo_plain =
            gcm_Seal ref_crypto (DeriveKey ref_crypto ''pw'' (take 32 demo_rand))
              (er_chunkNonce (take 12 (drop 32 demo_rand)) 0) demo_plain"
    using nz small by (subst sealed_chunks.simps) simp
  have e: "encrypt_stream ref_crypto (bytes_NewReader demo_rand) ''pw'' (bytes_NewReader demo_plain) 100 =
     Some (Inr demo_sealed)"
    using encrypt_stream_ok[OF ref_crypto_contract r, of 100 "''pw''" demo_plain]
    by (simp add: rd sc demo_sealed_def)
  have ls: "length demo_sealed = 513"
    by (simp add: demo_sealed_def demo_rand_def ref_crypto_def ref_tag_def lp)
  have snz: "demo_sealed \<noteq> []" using ls by auto
  have l32: "length (take 32 demo_rand) = 32" and l12: "length (take 12 (drop 32 demo_rand)) = 12"
    by (simp_all add: demo_rand_def)
  have d: "decrypt_stream ref_crypto ''pw'' (bytes_NewReader demo_sealed) 100 = Some (Inr demo_plain)"
    using decrypt_stream_ok[OF ref_crypto_contract _ l32 l12, of 100 "''pw''" demo_plain]
    unfolding sc demo_sealed_def by simp
  have g: "GetSnapshot (LocalStorage demo_os) (demo_enc_dir demo_sealed) ''e1'' =
     Inr \<lparr>bk_ID = ''e1@20240101-000000'',
          bk_Metadata = (demo_meta ''e1'' ''20240101-000000'' 100)\<lparr>md_Encrypted := True\<rparr>,
          bk_DataReader = bytes_NewReader demo_sealed\<rparr>"
    using snz by (simp add: demo_enc_dir_def storage_eval)
  have "RestoreDirectVolume ref_crypto (demo_client demo_sealed) ''v1'' ''e1'' False True =
     Some (Some (Wrapped ''failed to write backup data'' (Wrapped ''decryption failed'' ErrOpen)),
           None)"
    using lp
    by (intro RestoreDirectVolume_peek_splits_chunk[OF ref_crypto_contract r _ _ _ e, where B = "LocalStorage demo_os" and st = "demo_enc_dir demo_sealed" and backup = "\<lparr>bk_ID = ''e1@20240101-000000'',
          bk_Metadata = (demo_meta ''e1'' ''20240101-000000'' 100)\<lparr>md_Encrypted := True\<rparr>,
          bk_DataReader = bytes_NewReader demo_sealed\<rparr>"])
       (simp_all add: demo_client_def g)
  with lp e ls d g show ?thesis by simp
qed

section \<open>Authentication failures on the stream\<close>












end
